theory Spec2Isabelle
  imports Main "HOL-Library.Sublist"
begin

section \<open>Strings as the crawler uses them\<close>

text \<open>
  Text is a list of characters of the 8-bit type, read as the Unicode code points below
  256. On these, \<open>str.lower()\<close> acts on every character by itself: it maps \<open>A\<close> to
  \<open>Z\<close> and the capitals U+00C0 to U+00DE, except the sign U+00D7, to the character 32
  places up, and leaves every other character as it is.
\<close>

definition lower_char :: "char \<Rightarrow> char" where
  "lower_char c =
     (let n = (of_char c :: nat) in
      if (65 \<le> n \<and> n \<le> 90) \<or> (192 \<le> n \<and> n \<le> 222 \<and> n \<noteq> 215)
      then char_of (n + 32) else c)"

definition lower :: "string \<Rightarrow> string" where
  "lower s = map lower_char s"

text \<open>
  The code points below 256 that are whitespace for \<open>str.isspace()\<close>, \<open>str.strip()\<close>
  and the class \<open>\s\<close>: U+0009 to U+000D, U+001C to U+0020, U+0085, U+00A0.
\<close>

definition isspace :: "char \<Rightarrow> bool" where
  "isspace c = (c \<in> set [CHR 0x09, CHR 0x0A, CHR 0x0B, CHR 0x0C, CHR 0x0D,
                          CHR 0x1C, CHR 0x1D, CHR 0x1E, CHR 0x1F, CHR 0x20,
                          CHR 0x85, CHR 0xA0])"

definition strip :: "string \<Rightarrow> string" where
  "strip s = rev (dropWhile isspace (rev (dropWhile isspace s)))"

text \<open>Python's \<open>kw in s\<close> on strings: \<open>kw\<close> occurs in \<open>s\<close> as a contiguous run.\<close>

definition substr_in :: "string \<Rightarrow> string \<Rightarrow> bool" where
  "substr_in kw s = sublist kw s"

section \<open>Link scoring (app.py, server.py)\<close>

definition IMPORTANT_KEYWORDS :: "string list" where
  "IMPORTANT_KEYWORDS =
     [''about'', ''company'', ''corporate'', ''group'',
      ''leadership'', ''management'', ''investor'',
      ''who'', ''overview'', ''profile'']"

text \<open>
  The scoring loop of \<open>scrape_company\<close> in app.py: \<open>score\<close> starts at 0 and each keyword
  adds 2 when it occurs in the link text and 3 when it occurs in the lowercased URL.
\<close>

fun score_loop :: "string list \<Rightarrow> string \<Rightarrow> string \<Rightarrow> int \<Rightarrow> int" where
  "score_loop [] link_text full_url score = score"
| "score_loop (keyword # kws) link_text full_url score =
     (let score1 = (if substr_in keyword link_text then score + 2 else score);
          score2 = (if substr_in keyword (lower full_url) then score1 + 3 else score1)
      in score_loop kws link_text full_url score2)"

text \<open>The same score as \<open>scrape_company_async\<close> in server.py writes it: a sum over the keywords.\<close>

definition score_sum :: "string list \<Rightarrow> string \<Rightarrow> string \<Rightarrow> int" where
  "score_sum kws link_text full_url =
     sum_list (map (\<lambda>kw. 2 * of_bool (substr_in kw link_text)
                          + 3 * of_bool (substr_in kw (lower full_url))) kws)"

text \<open>
  What the browser answers for one anchor: \<open>get_attribute("href")\<close> raises, or returns
  the attribute (\<open>None\<close> when the anchor has none); \<open>inner_text()\<close> raises or returns the
  visible text.
\<close>

datatype 'a outcome = Raises | Returns 'a

record anchor =
  get_attribute_href :: "string option outcome"
  inner_text :: "string outcome"

text \<open>
  \<open>urllib.parse\<close> is a library, not code of the repository: the two functions the
  crawler calls are parameters of the model. Either may raise \<open>ValueError\<close>.
\<close>

record urllib =
  urljoin :: "string \<Rightarrow> string \<Rightarrow> string outcome"
  netloc :: "string \<Rightarrow> string outcome"

text \<open>
  The body of the loop over the anchors. \<open>None\<close> is every path that reaches
  \<open>continue\<close> (also through the bare \<open>except\<close>) or that leaves the score at 0;
  \<open>Some (full_url, score)\<close> is the pair appended to \<open>candidate_links\<close>.
\<close>

definition score_anchor ::
  "urllib \<Rightarrow> string list \<Rightarrow> string \<Rightarrow> string \<Rightarrow> anchor \<Rightarrow> (string \<times> int) option" where
  "score_anchor L kws website domain a =
     (case get_attribute_href a of
        Raises \<Rightarrow> None
      | Returns href \<Rightarrow>
          (case inner_text a of
             Raises \<Rightarrow> None
           | Returns t \<Rightarrow>
               (let link_text = strip (lower t) in
                case href of
                  None \<Rightarrow> None
                | Some h \<Rightarrow>
                    if h = [] then None
                    else
                      (case urljoin L website h of
                         Raises \<Rightarrow> None
                       | Returns full_url \<Rightarrow>
                           if \<not> substr_in domain full_url then None
                           else
                             (let score = score_loop kws link_text full_url 0
                              in if score > 0 then Some (full_url, score) else None)))))"

fun collect_links ::
  "urllib \<Rightarrow> string list \<Rightarrow> string \<Rightarrow> string \<Rightarrow> anchor list \<Rightarrow> (string \<times> int) list" where
  "collect_links L kws website domain [] = []"
| "collect_links L kws website domain (a # as) =
     (case score_anchor L kws website domain a of
        None \<Rightarrow> collect_links L kws website domain as
      | Some c \<Rightarrow> c # collect_links L kws website domain as)"

text \<open>
  \<open>sorted(candidate_links, key=lambda x: x[1], reverse=True)\<close>: Python's sort is stable,
  also with \<open>reverse=True\<close>, so it is the stable sort on the negated score.
\<close>

definition sort_by_score :: "(string \<times> int) list \<Rightarrow> (string \<times> int) list" where
  "sort_by_score cands = sort_key (\<lambda>x. - snd x) cands"

definition candidate_links ::
  "urllib \<Rightarrow> string list \<Rightarrow> string \<Rightarrow> string \<Rightarrow> anchor list \<Rightarrow> (string \<times> int) list" where
  "candidate_links L kws website domain anchors =
     sort_by_score (collect_links L kws website domain anchors)"

text \<open>The score as the specification words it: keywords counted, weighted 2 and 3.\<close>

definition keyword_hits :: "string list \<Rightarrow> string \<Rightarrow> nat" where
  "keyword_hits kws s = length (filter (\<lambda>kw. substr_in kw s) kws)"

definition spec_score :: "string list \<Rightarrow> string \<Rightarrow> string \<Rightarrow> int" where
  "spec_score kws visible_text url =
     2 * int (keyword_hits kws (lower visible_text)) + 3 * int (keyword_hits kws (lower url))"


text \<open>
  The link discovery block of \<open>scrape_company\<close>: \<open>domain = urlparse(website).netloc\<close>, the
  loop over the anchors, the sort. \<open>urlparse\<close> is outside the inner \<open>try\<close>, so when it
  raises the whole block raises.
\<close>

definition link_discovery :: "urllib \<Rightarrow> string \<Rightarrow> anchor list \<Rightarrow> (string \<times> int) list outcome" where
  "link_discovery L website anchors =
     (case netloc L website of
        Raises \<Rightarrow> Raises
      | Returns domain \<Rightarrow> Returns (candidate_links L IMPORTANT_KEYWORDS website domain anchors))"

section \<open>The browser\<close>

text \<open>
  Playwright is a library: the calls the crawler makes on it are the fields of a record,
  each taking the state \<open>'w\<close> of browser and network and returning the new one. A call
  that raises returns \<open>False\<close> or \<open>Raises\<close>. \<open>list_anchors\<close> stands for
  \<open>page.locator("a")\<close> with \<open>links.count()\<close>: the k-th anchor of the list holds what
  \<open>links.nth(k)\<close> answers. \<open>close_page\<close> includes the swallowing of its own errors.
\<close>

record 'w browser =
  new_page :: "'w \<Rightarrow> bool \<times> 'w"
  goto :: "string \<Rightarrow> 'w \<Rightarrow> bool \<times> 'w"
  body_text :: "'w \<Rightarrow> string outcome \<times> 'w"
  button_count :: "string \<Rightarrow> 'w \<Rightarrow> nat outcome \<times> 'w"
  click_first :: "string \<Rightarrow> 'w \<Rightarrow> bool \<times> 'w"
  list_anchors :: "'w \<Rightarrow> anchor list outcome \<times> 'w"
  close_page :: "'w \<Rightarrow> 'w"

section \<open>Traversal of the top pages (app.py, server.py)\<close>

text \<open>
  The body of the \<open>try\<close> inside the traversal loop: \<open>page.goto(url)\<close>, then
  \<open>page.inner_text("body")\<close>. \<open>Raises\<close> is the \<open>except Exception\<close> branch.
\<close>

definition visit_page :: "'w browser \<Rightarrow> string \<Rightarrow> 'w \<Rightarrow> string outcome \<times> 'w" where
  "visit_page B url w =
     (case goto B url w of
        (False, w1) \<Rightarrow> (Raises, w1)
      | (True, w1) \<Rightarrow> body_text B w1)"

text \<open>
  The state of the loop: the set \<open>visited\<close>, the text \<open>all_text\<close>, the browser, and
  \<open>navigated\<close>, the record of every URL the loop passed to \<open>page.goto\<close> with what the
  visit gave (the program keeps no such record; the model does, to speak about the
  navigations).
\<close>

record 'w crawl =
  visited :: "string set"
  all_text :: string
  world :: 'w
  navigated :: "(string \<times> string outcome) list"

fun traverse :: "'w browser \<Rightarrow> (string \<times> int) list \<Rightarrow> 'w crawl \<Rightarrow> 'w crawl" where
  "traverse B [] st = st"
| "traverse B ((url, score) # rest) st =
     (if url \<in> visited st then traverse B rest st
      else
        (let st1 = st\<lparr>visited := insert url (visited st)\<rparr> in
         case visit_page B url (world st1) of
           (Returns sub_text, w') \<Rightarrow>
             traverse B rest
               (st1\<lparr>all_text := all_text st1 @ '' '' @ sub_text, world := w',
                    navigated := navigated st1 @ [(url, Returns sub_text)]\<rparr>)
         | (Raises, w') \<Rightarrow>
             traverse B rest
               (st1\<lparr>world := w', navigated := navigated st1 @ [(url, Raises)]\<rparr>)))"

text \<open>
  \<open>visited = set()\<close> and the loop over \<open>candidate_links[:3]\<close>. The copy of the
  crawl in server.py, \<open>scrape_company_async\<close>, has the same two loops (its score is
  \<open>score_sum\<close>) and pushes a \<open>step\<close> event before each visit; the run of server.py
  does not call it.
\<close>

definition visit_top_pages ::
  "'w browser \<Rightarrow> (string \<times> int) list \<Rightarrow> string \<Rightarrow> 'w \<Rightarrow> 'w crawl" where
  "visit_top_pages B cands home_text w =
     traverse B (take 3 cands)
       \<lparr>visited = {}, all_text = home_text, world = w, navigated = []\<rparr>"

text \<open>The texts of the visits that succeeded, in the order of the visits.\<close>

fun texts_of :: "(string \<times> string outcome) list \<Rightarrow> string list" where
  "texts_of [] = []"
| "texts_of ((url, Returns t) # vs) = t # texts_of vs"
| "texts_of ((url, Raises) # vs) = texts_of vs"

text \<open>
  The aggregation as the specification words it: go through the URLs in order; navigate;
  when the navigation or the reading of the text fails, skip that URL and go on with the
  rest; otherwise append a space and the text.
\<close>

fun aggregate :: "'w browser \<Rightarrow> string list \<Rightarrow> string \<Rightarrow> 'w \<Rightarrow> string \<times> 'w" where
  "aggregate B [] text w = (text, w)"
| "aggregate B (url # others) text w =
     (case goto B url w of
        (False, w1) \<Rightarrow> aggregate B others text w1
      | (True, w1) \<Rightarrow>
          (case body_text B w1 of
             (Raises, w2) \<Rightarrow> aggregate B others text w2
           | (Returns t, w2) \<Rightarrow> aggregate B others (text @ '' '' @ t) w2))"

section \<open>Regular expressions of the fact extractors\<close>

text \<open>
  \<open>re\<close> is a library. The patterns of the extractors use literal text, character
  classes, concatenation, an optional group, and \<open>+\<close>, \<open>*\<close> and \<open>{n}\<close> on a class;
  \<open>rx\<close> is that fragment of the pattern syntax.
\<close>

datatype cls = Space | Digit | Chars string | NotChars string

datatype rx =
    Str string
  | Cls cls
  | Seq rx rx
  | Opt rx
  | Plus cls
  | Star cls
  | Rep nat cls
  | Group rx

fun cls_match :: "cls \<Rightarrow> char \<Rightarrow> bool" where
  "cls_match Space c = isspace c"
| "cls_match Digit c = (c \<in> set ''0123456789'')"
| "cls_match (Chars cs) c = (c \<in> set cs)"
| "cls_match (NotChars cs) c = (c \<notin> set cs)"

text \<open>Literal text under \<open>re.IGNORECASE\<close> (\<open>ic\<close>) or not.\<close>

definition str_eq :: "bool \<Rightarrow> string \<Rightarrow> string \<Rightarrow> bool" where
  "str_eq ic a b = (if ic then lower a = lower b else a = b)"

text \<open>
  The backtracking matcher: \<open>ends r ic s\<close> lists, for every way \<open>r\<close> matches at the
  start of \<open>s\<close>, what is left of \<open>s\<close>, in the order the engine tries them (a greedy
  quantifier tries the longest run first, an optional group is tried before it is
  skipped). The head of the list is the match the engine reports.
\<close>

fun ends :: "rx \<Rightarrow> bool \<Rightarrow> string \<Rightarrow> string list" where
  "ends (Str w) ic s =
     (if length w \<le> length s \<and> str_eq ic (take (length w) s) w then [drop (length w) s] else [])"
| "ends (Cls k) ic s =
     (case s of [] \<Rightarrow> [] | c # cs \<Rightarrow> if cls_match k c then [cs] else [])"
| "ends (Seq a b) ic s = concat (map (ends b ic) (ends a ic s))"
| "ends (Opt a) ic s = ends a ic s @ [s]"
| "ends (Plus k) ic s =
     map (\<lambda>i. drop i s) (rev [1 ..< Suc (length (takeWhile (cls_match k) s))])"
| "ends (Star k) ic s =
     map (\<lambda>i. drop i s) (rev [0 ..< Suc (length (takeWhile (cls_match k) s))])"
| "ends (Rep n k) ic s =
     (if n \<le> length s \<and> (\<forall>c \<in> set (take n s). cls_match k c) then [drop n s] else [])"
| "ends (Group a) ic s = ends a ic s"

text \<open>
  \<open>re.search(pattern, text, flags)\<close> followed by \<open>match.group(0)\<close>: the first position,
  from the left, at which the pattern matches, and the text matched there.
\<close>

fun re_search :: "rx \<Rightarrow> bool \<Rightarrow> string \<Rightarrow> string option" where
  "re_search r ic s =
     (case ends r ic s of
        rest # others \<Rightarrow> Some (take (length s - length rest) s)
      | [] \<Rightarrow> (case s of [] \<Rightarrow> None | c # cs \<Rightarrow> re_search r ic cs))"

text \<open>
  What a pattern denotes: \<open>matches r ic m\<close> holds when the text \<open>m\<close>, as a whole, has
  the form the pattern describes.
\<close>

fun matches :: "rx \<Rightarrow> bool \<Rightarrow> string \<Rightarrow> bool" where
  "matches (Str w) ic m = (length m = length w \<and> str_eq ic m w)"
| "matches (Cls k) ic m = (\<exists>c. m = [c] \<and> cls_match k c)"
| "matches (Seq a b) ic m = (\<exists>x y. m = x @ y \<and> matches a ic x \<and> matches b ic y)"
| "matches (Opt a) ic m = (m = [] \<or> matches a ic m)"
| "matches (Plus k) ic m = (m \<noteq> [] \<and> (\<forall>c \<in> set m. cls_match k c))"
| "matches (Star k) ic m = (\<forall>c \<in> set m. cls_match k c)"
| "matches (Rep n k) ic m = (length m = n \<and> (\<forall>c \<in> set m. cls_match k c))"
| "matches (Group a) ic m = matches a ic m"

text \<open>The pattern has a match somewhere in the text.\<close>

definition occurs :: "rx \<Rightarrow> bool \<Rightarrow> string \<Rightarrow> bool" where
  "occurs r ic text = (\<exists>a m b. text = a @ m @ b \<and> matches r ic m)"

section \<open>Fact extraction (app.py, server.py)\<close>

text \<open>
  The three patterns of \<open>extract_founded\<close>:
  \<^verbatim>\<open>Founded\s+(in\s+)?(\d{4})\<close>, \<^verbatim>\<open>Established\s+(in\s+)?(\d{4})\<close>, \<^verbatim>\<open>Since\s+(\d{4})\<close>.
\<close>

definition founded_patterns :: "rx list" where
  "founded_patterns =
     [Seq (Str ''Founded'') (Seq (Plus Space)
        (Seq (Opt (Group (Seq (Str ''in'') (Plus Space)))) (Group (Rep 4 Digit)))),
      Seq (Str ''Established'') (Seq (Plus Space)
        (Seq (Opt (Group (Seq (Str ''in'') (Plus Space)))) (Group (Rep 4 Digit)))),
      Seq (Str ''Since'') (Seq (Plus Space) (Group (Rep 4 Digit)))]"

text \<open>The loop \<open>for pattern in patterns\<close> with \<open>re.search(pattern, text, re.IGNORECASE)\<close>.\<close>

fun first_match :: "rx list \<Rightarrow> string \<Rightarrow> string option" where
  "first_match [] text = None"
| "first_match (pattern # patterns) text =
     (case re_search pattern True text of
        Some m \<Rightarrow> Some m
      | None \<Rightarrow> first_match patterns text)"

definition extract_founded :: "string \<Rightarrow> string option" where
  "extract_founded text = first_match founded_patterns text"

text \<open>
  The phrases as the specification words them: "Founded [in] YYYY" is the word in any
  case, whitespace, optionally "in" and whitespace, and four digits.
\<close>

definition year :: "string \<Rightarrow> bool" where
  "year y = (length y = 4 \<and> (\<forall>c \<in> set y. c \<in> set ''0123456789''))"

definition spaces :: "string \<Rightarrow> bool" where
  "spaces sp = (sp \<noteq> [] \<and> (\<forall>c \<in> set sp. isspace c))"

definition founding_phrase :: "string \<Rightarrow> bool \<Rightarrow> string \<Rightarrow> bool" where
  "founding_phrase word with_in m =
     (\<exists>w sp y. lower w = lower word \<and> spaces sp \<and> year y \<and>
        (m = w @ sp @ y \<or>
         (with_in \<and> (\<exists>i sp2. lower i = ''in'' \<and> spaces sp2 \<and> m = w @ sp @ i @ sp2 @ y))))"

text \<open>\<^verbatim>\<open>[a-zA-Z0-9._%+-]+@[a-zA-Z0-9.-]+\.[a-zA-Z]+\<close>, searched without flags.\<close>

definition letters :: string where
  "letters = ''abcdefghijklmnopqrstuvwxyzABCDEFGHIJKLMNOPQRSTUVWXYZ''"

definition email_pattern :: rx where
  "email_pattern =
     Seq (Plus (Chars (letters @ ''0123456789._%+-'')))
       (Seq (Str ''@'')
         (Seq (Plus (Chars (letters @ ''0123456789.-'')))
           (Seq (Str ''.'') (Plus (Chars letters)))))"

definition extract_email :: "string \<Rightarrow> string option" where
  "extract_email text = re_search email_pattern False text"

text \<open>
  \<^verbatim>\<open>([^.]*{keyword}[^.]*)\<close> under \<open>re.IGNORECASE\<close>, the match stripped. The keyword
  is pasted into the pattern as it is, so it is read as a pattern: \<open>keyword\<close> is the
  pattern its text denotes. The only call passes \<open>"about us"\<close>, which denotes
  \<open>Str ''about us''\<close>.
\<close>

definition extract_sentence_near_keyword :: "string \<Rightarrow> rx \<Rightarrow> string option" where
  "extract_sentence_near_keyword text keyword =
     map_option strip
       (re_search (Group (Seq (Star (NotChars ''.'')) (Seq keyword (Star (NotChars ''.'')))))
          True text)"

text \<open>\<open>re.sub(r"\s+", " ", all_text)\<close>: every run of whitespace becomes one space.\<close>

function collapse_ws :: "string \<Rightarrow> string" where
  "collapse_ws [] = []"
| "collapse_ws (c # cs) =
     (if isspace c then CHR '' '' # collapse_ws (dropWhile isspace cs)
      else c # collapse_ws cs)"
  by pat_completeness auto
termination
  by (relation "measure length") (auto simp: length_dropWhile_le less_Suc_eq_le)

section \<open>JSON values\<close>

text \<open>
  What \<open>json.loads\<close> returns and what a cell of the result row holds: \<open>None\<close>, a
  bool, a number, a string, a list, a dict (its items in order, keys unique). A float is
  kept by its literal; nothing computes with it. \<open>json\<close> is a library: \<open>loads\<close>
  (\<open>Raises\<close> is \<open>JSONDecodeError\<close>) and \<open>dumps(value, ensure_ascii=False)\<close> are
  parameters of the model.
\<close>

datatype json =
    JNull
  | JBool bool
  | JInt int
  | JFloat string
  | JStr string
  | JArr "json list"
  | JObj "(string \<times> json) list"

record jsonlib =
  loads :: "string \<Rightarrow> json outcome"
  dumps :: "json \<Rightarrow> string"

section \<open>The enrichment call (llm_utils.py)\<close>

record groq_config =
  GROQ_API_KEY :: "string option"
  GROQ_MODEL_NAME :: "string option"

text \<open>
  The request posted to the service: key, model, and the three texts pasted into the
  prompt template. The reply: whether \<open>raise_for_status()\<close> passes, and what
  \<open>resp.json()\<close> gives.
\<close>

record llm_request =
  api_key :: string
  model :: string
  prompt_company_name :: string
  prompt_company_website :: string
  prompt_about_text :: string

record http_response =
  status_ok :: bool
  body :: "json outcome"

text \<open>Python's truth value of an environment variable: set and not empty.\<close>

fun truthy :: "string option \<Rightarrow> bool" where
  "truthy None = False"
| "truthy (Some s) = (s \<noteq> [])"

text \<open>
  \<open>not GROQ_API_KEY or not GROQ_MODEL_NAME or "YOUR_GROQ" in GROQ_API_KEY
  or "YOUR_GROQ" in GROQ_MODEL_NAME\<close>
\<close>

definition not_configured :: "groq_config \<Rightarrow> bool" where
  "not_configured G =
     (\<not> truthy (GROQ_API_KEY G) \<or> \<not> truthy (GROQ_MODEL_NAME G)
      \<or> substr_in ''YOUR_GROQ'' (the (GROQ_API_KEY G))
      \<or> substr_in ''YOUR_GROQ'' (the (GROQ_MODEL_NAME G)))"

text \<open>\<open>d.get(key, dflt)\<close>, \<open>dflt\<close> the default: only a dict has \<open>get\<close>.\<close>

fun py_get :: "json \<Rightarrow> string \<Rightarrow> json \<Rightarrow> json outcome" where
  "py_get (JObj kvs) key dflt =
     Returns (case map_of kvs key of Some v \<Rightarrow> v | None \<Rightarrow> dflt)"
| "py_get other key dflt = Raises"

text \<open>\<open>x[0]\<close>: the first item of a list, the first character of a string; raises otherwise.\<close>

fun first_item :: "json \<Rightarrow> json outcome" where
  "first_item (JArr (x # xs)) = Returns x"
| "first_item (JStr (c # cs)) = Returns (JStr [c])"
| "first_item other = Raises"

fun str_strip :: "json \<Rightarrow> string outcome" where
  "str_strip (JStr s) = Returns (strip s)"
| "str_strip other = Raises"

text \<open>
  \<open>data.get("choices", [{}])[0].get("message", {}).get("content", "").strip()\<close>
\<close>

definition extract_content :: "json \<Rightarrow> string outcome" where
  "extract_content data =
     (case py_get data ''choices'' (JArr [JObj []]) of
        Raises \<Rightarrow> Raises
      | Returns choices \<Rightarrow>
          (case first_item choices of
             Raises \<Rightarrow> Raises
           | Returns choice \<Rightarrow>
               (case py_get choice ''message'' (JObj []) of
                  Raises \<Rightarrow> Raises
                | Returns message \<Rightarrow>
                    (case py_get message ''content'' (JStr []) of
                       Raises \<Rightarrow> Raises
                     | Returns content \<Rightarrow> str_strip content))))"

text \<open>
  \<open>preprocess_about_with_llm\<close>. \<open>post\<close> is \<open>client.post\<close> on the state \<open>'w\<close> of the
  network; \<open>Raises\<close> is any exception of the request. Every exception inside the \<open>try\<close>
  ends in \<open>return None\<close>.
\<close>

definition preprocess_about_with_llm ::
  "groq_config \<Rightarrow> (llm_request \<Rightarrow> 'w \<Rightarrow> http_response outcome \<times> 'w)
     \<Rightarrow> string \<Rightarrow> string \<Rightarrow> string \<Rightarrow> 'w \<Rightarrow> string option \<times> 'w" where
  "preprocess_about_with_llm G post company_name company_website about_text w =
     (if not_configured G then (None, w)
      else
        (case post \<lparr>api_key = the (GROQ_API_KEY G), model = the (GROQ_MODEL_NAME G),
                    prompt_company_name = company_name,
                    prompt_company_website = company_website,
                    prompt_about_text = about_text\<rparr> w of
           (Raises, w1) \<Rightarrow> (None, w1)
         | (Returns resp, w1) \<Rightarrow>
             if \<not> status_ok resp then (None, w1)
             else
               (case body resp of
                  Raises \<Rightarrow> (None, w1)
                | Returns data \<Rightarrow>
                    (case extract_content data of
                       Raises \<Rightarrow> (None, w1)
                     | Returns content \<Rightarrow>
                         (if content = [] then None else Some content, w1)))))"

section \<open>The result row and the enrichment fields (app.py)\<close>

text \<open>The result is a dict from column names to values.\<close>

type_synonym result = "string \<rightharpoonup> json"

definition ENRICHMENT_KEYS :: "string list" where
  "ENRICHMENT_KEYS =
     [''company_overview'', ''business_model'', ''products_services'',
      ''operational_footprint'', ''ai_ml_opportunity_map'', ''leadership'',
      ''strategic_developments'', ''strategic_outlook'', ''executive_brief'']"

definition initial_result :: "string \<Rightarrow> string \<Rightarrow> result" where
  "initial_result company_name website =
     [''Company Name'' \<mapsto> JStr company_name,
      ''Website'' \<mapsto> JStr website,
      ''Founded Info'' \<mapsto> JNull,
      ''About Us'' \<mapsto> JNull,
      ''company_overview'' \<mapsto> JNull,
      ''business_model'' \<mapsto> JNull,
      ''products_services'' \<mapsto> JNull,
      ''operational_footprint'' \<mapsto> JNull,
      ''ai_ml_opportunity_map'' \<mapsto> JNull,
      ''leadership'' \<mapsto> JNull,
      ''strategic_developments'' \<mapsto> JNull,
      ''strategic_outlook'' \<mapsto> JNull,
      ''executive_brief'' \<mapsto> JNull,
      ''Email'' \<mapsto> JNull]"

text \<open>What the loop over the nine keys stores for \<open>value = parsed.get(key)\<close>.\<close>

fun field_value :: "jsonlib \<Rightarrow> json option \<Rightarrow> json" where
  "field_value J None = JNull"
| "field_value J (Some JNull) = JNull"
| "field_value J (Some (JObj kvs)) = JStr (dumps J (JObj kvs))"
| "field_value J (Some (JArr xs)) = JStr (dumps J (JArr xs))"
| "field_value J (Some v) = v"

fun fill_fields :: "jsonlib \<Rightarrow> (string \<times> json) list \<Rightarrow> string list \<Rightarrow> result \<Rightarrow> result" where
  "fill_fields J parsed [] result = result"
| "fill_fields J parsed (key # keys) result =
     fill_fields J parsed keys (result(key \<mapsto> field_value J (map_of parsed key)))"

text \<open>\<open>result[key] or ""\<close> for a cell that holds \<open>None\<close> or a string.\<close>

fun text_or_empty :: "json option \<Rightarrow> string" where
  "text_or_empty (Some (JStr s)) = s"
| "text_or_empty other = []"

text \<open>
  The enrichment block of \<open>scrape_company\<close> (the inner \<open>try\<close> with its
  \<open>except Exception\<close>): the call, \<open>json.loads\<close>, the loop over the nine keys.
  Company name and website are strings here; for any other value the call raises inside
  this \<open>try\<close> and the result is left as it is, as in the branches below.
\<close>

definition enrich ::
  "jsonlib \<Rightarrow> groq_config \<Rightarrow> (llm_request \<Rightarrow> 'w \<Rightarrow> http_response outcome \<times> 'w)
     \<Rightarrow> string \<Rightarrow> result \<Rightarrow> 'w \<Rightarrow> result \<times> 'w" where
  "enrich J G post company_name result w =
     (case preprocess_about_with_llm G post company_name
             (text_or_empty (result ''Website'')) (text_or_empty (result ''About Us'')) w of
        (None, w1) \<Rightarrow> (result, w1)
      | (Some raw_json, w1) \<Rightarrow>
          if raw_json = [] then (result, w1)
          else
            (case loads J raw_json of
               Raises \<Rightarrow> (result, w1)
             | Returns parsed \<Rightarrow>
                 (case parsed of
                    JObj kvs \<Rightarrow> (fill_fields J kvs ENRICHMENT_KEYS result, w1)
                  | other \<Rightarrow> (result, w1))))"

section \<open>The crawl of one company (app.py)\<close>

definition COOKIE_KEYWORDS :: "string list" where
  "COOKIE_KEYWORDS = [''accept'', ''agree'', ''allow all'']"

text \<open>
  The cookie loop: the first keyword with a button that can be clicked ends the loop;
  an exception in \<open>count()\<close> or \<open>click()\<close> is passed over and the next keyword is tried.
\<close>

fun handle_cookies :: "'w browser \<Rightarrow> string list \<Rightarrow> 'w \<Rightarrow> 'w" where
  "handle_cookies B [] w = w"
| "handle_cookies B (keyword # keywords) w =
     (case button_count B keyword w of
        (Raises, w1) \<Rightarrow> handle_cookies B keywords w1
      | (Returns n, w1) \<Rightarrow>
          if n > 0 then
            (case click_first B keyword w1 of
               (True, w2) \<Rightarrow> w2
             | (False, w2) \<Rightarrow> handle_cookies B keywords w2)
          else handle_cookies B keywords w1)"

text \<open>
  Everything \<open>scrape_company\<close> uses from outside the repository: the browser, the URL and
  JSON libraries, the service configuration and request; and for the run of server.py,
  the reading of the input table (\<open>Inl\<close> is the message of the exception), the launch
  and the closing of the browser, and the writing of the output table (its own errors
  are swallowed by the caller).
\<close>

record 'w env =
  browser :: "'w browser"
  urls :: urllib
  json_lib :: jsonlib
  groq :: groq_config
  groq_post :: "llm_request \<Rightarrow> 'w \<Rightarrow> http_response outcome \<times> 'w"
  read_excel :: "string \<Rightarrow> 'w \<Rightarrow> (string + (string \<times> string) list) \<times> 'w"
  launch :: "'w \<Rightarrow> (string + unit) \<times> 'w"
  close_browser :: "'w \<Rightarrow> (string + unit) \<times> 'w"
  save_output :: "result list \<Rightarrow> 'w \<Rightarrow> 'w"

definition opt_str :: "string option \<Rightarrow> json" where
  "opt_str v = (case v of None \<Rightarrow> JNull | Some s \<Rightarrow> JStr s)"

text \<open>
  The outer \<open>try\<close> of \<open>scrape_company\<close> from \<open>page.goto(website)\<close> on. Every exception
  there reaches \<open>except Exception\<close>, which prints and goes on to \<open>return result\<close>: the
  function returns the result as it stands at the exception.
\<close>

definition crawl_company ::
  "'w env \<Rightarrow> string \<Rightarrow> string \<Rightarrow> result \<Rightarrow> 'w \<Rightarrow> result \<times> 'w" where
  "crawl_company E company_name website result w1 =
     (case goto (browser E) website w1 of
        (False, w2) \<Rightarrow> (result, w2)
      | (True, w2) \<Rightarrow>
          (let w3 = handle_cookies (browser E) COOKIE_KEYWORDS w2 in
           case body_text (browser E) w3 of
             (Raises, w4) \<Rightarrow> (result, w4)
           | (Returns home_text, w4) \<Rightarrow>
               (case netloc (urls E) website of
                  Raises \<Rightarrow> (result, w4)
                | Returns domain \<Rightarrow>
                    (case list_anchors (browser E) w4 of
                       (Raises, w5) \<Rightarrow> (result, w5)
                     | (Returns anchors, w5) \<Rightarrow>
                         (let cands = candidate_links (urls E) IMPORTANT_KEYWORDS website domain anchors;
                              st = visit_top_pages (browser E) cands home_text w5;
                              cleaned = collapse_ws (all_text st);
                              result1 = result
                                (''Founded Info'' \<mapsto> opt_str (extract_founded cleaned),
                                 ''About Us'' \<mapsto>
                                    opt_str (extract_sentence_near_keyword cleaned (Str ''about us'')),
                                 ''Email'' \<mapsto> opt_str (extract_email cleaned))
                          in enrich (json_lib E) (groq E) (groq_post E) company_name result1
                               (world st))))))"

text \<open>
  \<open>scrape_company\<close>: the result starts with the two identity fields and nulls. When
  \<open>browser.new_page()\<close> raises there is no page to close; otherwise \<open>finally\<close> closes it.
\<close>

definition scrape_company :: "'w env \<Rightarrow> string \<Rightarrow> string \<Rightarrow> 'w \<Rightarrow> result \<times> 'w" where
  "scrape_company E company_name website w =
     (let result = initial_result company_name website in
      case new_page (browser E) w of
        (False, w1) \<Rightarrow> (result, w1)
      | (True, w1) \<Rightarrow>
          (case crawl_company E company_name website result w1 of
             (result', w2) \<Rightarrow> (result', close_page (browser E) w2)))"

text \<open>
  Opening the initial page or fetching the homepage text fails: \<open>browser.new_page()\<close>
  raises, or \<open>page.goto(website)\<close> raises, or \<open>page.inner_text("body")\<close> raises
  after the cookie loop.
\<close>

definition homepage_fails :: "'w env \<Rightarrow> string \<Rightarrow> 'w \<Rightarrow> bool" where
  "homepage_fails E website w =
     (fst (new_page (browser E) w) = False
      \<or> (\<exists>w1. new_page (browser E) w = (True, w1)
            \<and> (fst (goto (browser E) website w1) = False
                \<or> (\<exists>w2. goto (browser E) website w1 = (True, w2)
                      \<and> fst (body_text (browser E)
                               (handle_cookies (browser E) COOKIE_KEYWORDS w2)) = Raises))))"

section \<open>The job and the run (server.py)\<close>

datatype job_status = Idle | Running | Done | Error

text \<open>The events of \<open>push_event\<close>, without the time stamp.\<close>

datatype event =
    Start nat
  | Company_start nat nat string string
  | Step string string
  | Company_done nat nat string result
  | Done_event nat string
  | Error_event string

record job =
  id_job :: "string option"
  status :: job_status
  total_job :: nat
  current :: nat
  current_company :: string
  current_step :: string
  results :: "result list"
  events :: "event list"
  error_job :: "string option"

definition push_event :: "event \<Rightarrow> job \<Rightarrow> job" where
  "push_event ev j = j\<lparr>events := events j @ [ev]\<rparr>"

definition OUTPUT_FILE :: string where
  "OUTPUT_FILE = ''output.xlsx''"

definition UPLOAD_FOLDER :: string where
  "UPLOAD_FOLDER = ''uploads''"

text \<open>
  The loop of \<open>run_scraper_async\<close> over the rows; \<open>idx\<close> is the index of the row. The
  crawl is \<open>scrape_company\<close> of app.py, which pushes no event.
\<close>

fun run_companies ::
  "'w env \<Rightarrow> (string \<times> string) list \<Rightarrow> nat \<Rightarrow> nat \<Rightarrow> job \<Rightarrow> 'w \<Rightarrow> job \<times> 'w" where
  "run_companies E [] idx n_total j w = (j, w)"
| "run_companies E ((company_name, website) # rows) idx n_total j w =
     (let j1 = j\<lparr>current := idx + 1, current_company := company_name\<rparr>;
          j2 = push_event (Company_start (idx + 1) n_total company_name website) j1
      in case scrape_company E company_name website w of
           (result, w1) \<Rightarrow>
             (let j3 = j2\<lparr>results := results j2 @ [result]\<rparr>;
                  w2 = save_output E (results j3) w1;
                  j4 = push_event (Company_done (idx + 1) n_total company_name result) j3
              in run_companies E rows (idx + 1) n_total j4 w2))"

text \<open>\<open>run_scraper_async\<close>: \<open>Some msg\<close> is an exception that leaves the function.\<close>

definition run_scraper_async ::
  "'w env \<Rightarrow> string \<Rightarrow> job \<Rightarrow> 'w \<Rightarrow> string option \<times> job \<times> 'w" where
  "run_scraper_async E input_file j w =
     (case read_excel E input_file w of
        (Inl msg, w1) \<Rightarrow> (Some msg, j, w1)
      | (Inr rows, w1) \<Rightarrow>
          (let n_total = length rows;
               j1 = push_event (Start n_total) (j\<lparr>total_job := n_total, results := []\<rparr>)
           in case launch E w1 of
                (Inl msg, w2) \<Rightarrow> (Some msg, j1, w2)
              | (Inr u, w2) \<Rightarrow>
                  (case run_companies E rows 0 n_total j1 w2 of
                     (j2, w3) \<Rightarrow>
                       (case close_browser E w3 of
                          (Inl msg, w4) \<Rightarrow> (Some msg, j2, w4)
                        | (Inr u', w4) \<Rightarrow>
                            (None,
                             (push_event (Done_event n_total OUTPUT_FILE) j2)\<lparr>status := Done\<rparr>,
                             w4)))))"

definition run_scraper_thread :: "'w env \<Rightarrow> string \<Rightarrow> job \<Rightarrow> 'w \<Rightarrow> job \<times> 'w" where
  "run_scraper_thread E input_file j w =
     (case run_scraper_async E input_file j w of
        (Some msg, j1, w1) \<Rightarrow>
          (push_event (Error_event msg) (j1\<lparr>status := Error, error_job := Some msg\<rparr>), w1)
      | (None, j1, w1) \<Rightarrow> (j1, w1))"

section \<open>The upload endpoint (server.py)\<close>

text \<open>
  The uploaded file: its name as the client sent it, and what reading the stored copy
  gives (\<open>Raises\<close>, or the columns of the table).
\<close>

record upload_file =
  filename :: string
  columns :: "string list outcome"

datatype upload_error =
    Already_running
  | No_file
  | Bad_extension
  | Missing_columns "string list"
  | Could_not_read

text \<open>
  The replies: a JSON error with its status code, the acceptance with the job identifier,
  and \<open>Unhandled\<close> for an exception that leaves the handler (the framework answers 500).
\<close>

datatype upload_reply = Rejected nat upload_error | Accepted string | Unhandled

text \<open>
  \<open>upload\<close>: \<open>file\<close> is \<open>request.files.get("file")\<close>, \<open>uuid4\<close> the text of the fresh
  \<open>uuid.uuid4()\<close>, and \<open>save path\<close> tells whether \<open>f.save(path)\<close> writes the file
  (\<open>False\<close>: it raises, which no \<open>try\<close> catches). Returns the reply, the job, and
  the input path of the thread it started (\<open>None\<close>: no thread started).
\<close>

definition upload ::
  "job \<Rightarrow> upload_file option \<Rightarrow> string \<Rightarrow> (string \<Rightarrow> bool)
     \<Rightarrow> upload_reply \<times> job \<times> string option" where
  "upload j file uuid4 save =
     (if status j = Running then (Rejected 409 Already_running, j, None)
      else
        (case file of
           None \<Rightarrow> (Rejected 400 No_file, j, None)
         | Some f \<Rightarrow>
             if \<not> (suffix ''.xlsx'' (filename f) \<or> suffix ''.xls'' (filename f)
                    \<or> suffix ''.csv'' (filename f))
             then (Rejected 400 Bad_extension, j, None)
             else
               (let job_id = take 8 uuid4;
                    input_path = UPLOAD_FOLDER @ ''/'' @ job_id @ ''_'' @ filename f
                in if \<not> save input_path then (Unhandled, j, None)
                   else
                     (case columns f of
                        Raises \<Rightarrow> (Rejected 400 Could_not_read, j, None)
                      | Returns cols \<Rightarrow>
                          if \<not> ({''company_name'', ''website''} \<subseteq> set cols)
                          then (Rejected 400 (Missing_columns cols), j, None)
                          else
                            (Accepted job_id,
                             j\<lparr>id_job := Some job_id, status := Running, total_job := 0,
                               current := 0, current_company := [], current_step := [],
                               results := [], events := [], error_job := None\<rparr>,
                             Some input_path)))))"

section \<open>Fixtures for the examples\<close>

text \<open>
  A URL library that agrees with \<open>urllib.parse\<close> on the URLs of the examples: an href
  with a scheme is absolute and is returned as it is, any other href is a path appended
  to the base; the netloc is what lies between \<open>://\<close> and the next \<open>/\<close>, \<open>?\<close> or \<open>#\<close>.
\<close>

fun after_scheme :: "string \<Rightarrow> string" where
  "after_scheme (a # b # c # r) = (if [a, b, c] = ''://'' then r else after_scheme (b # c # r))"
| "after_scheme r = []"

definition example_urllib :: urllib where
  "example_urllib =
     \<lparr>urljoin = (\<lambda>base href. Returns (if substr_in ''://'' href then href else base @ href)),
      netloc = (\<lambda>url. Returns (takeWhile (\<lambda>c. c \<notin> set ''/?#'') (after_scheme url)))\<rparr>"

text \<open>
  A browser over a fixed table of pages: the state is the URL of the open page, a URL
  outside the table fails to load.
\<close>

definition example_browser :: "(string \<times> string) list \<Rightarrow> string browser" where
  "example_browser pages =
     \<lparr>new_page = (\<lambda>w. (True, w)),
      goto = (\<lambda>url w. (map_of pages url \<noteq> None, url)),
      body_text = (\<lambda>w. (case map_of pages w of None \<Rightarrow> Raises | Some t \<Rightarrow> Returns t, w)),
      button_count = (\<lambda>kw w. (Returns 0, w)),
      click_first = (\<lambda>kw w. (False, w)),
      list_anchors = (\<lambda>w. (Returns [], w)),
      close_page = (\<lambda>w. w)\<rparr>"

text \<open>
  A browser over a fixed table from URLs to what reading the page gives: a URL outside
  the table fails to load, a page whose entry is \<open>Raises\<close> loads but its text cannot
  be read.
\<close>

definition example_flaky_browser :: "(string \<times> string outcome) list \<Rightarrow> string browser" where
  "example_flaky_browser pages =
     \<lparr>new_page = (\<lambda>w. (True, w)),
      goto = (\<lambda>url w. (map_of pages url \<noteq> None, url)),
      body_text = (\<lambda>w. (case map_of pages w of None \<Rightarrow> Raises | Some t \<Rightarrow> t, w)),
      button_count = (\<lambda>kw w. (Returns 0, w)),
      click_first = (\<lambda>kw w. (False, w)),
      list_anchors = (\<lambda>w. (Returns [], w)),
      close_page = (\<lambda>w. w)\<rparr>"

text \<open>
  The surroundings of a run over that browser: the input table holds \<open>rows\<close>, the
  browser launches and closes, the service is not configured.
\<close>

definition example_env :: "(string \<times> string) list \<Rightarrow> (string \<times> string) list \<Rightarrow> string env" where
  "example_env pages rows =
     \<lparr>browser = example_browser pages,
      urls = example_urllib,
      json_lib = \<lparr>loads = (\<lambda>s. Raises), dumps = (\<lambda>v. [])\<rparr>,
      groq = \<lparr>GROQ_API_KEY = None, GROQ_MODEL_NAME = None\<rparr>,
      groq_post = (\<lambda>r w. (Raises, w)),
      read_excel = (\<lambda>f w. (Inr rows, w)),
      launch = (\<lambda>w. (Inr (), w)),
      close_browser = (\<lambda>w. (Inr (), w)),
      save_output = (\<lambda>rs w. w)\<rparr>"

text \<open>
  A disk on which the folder \<open>uploads\<close> exists and has no folder inside: a file is
  written when its path is \<open>uploads/\<close> and a name without a further \<open>/\<close>.
\<close>

definition example_uploads_folder :: "string \<Rightarrow> bool" where
  "example_uploads_folder path =
     (prefix ''uploads/'' path \<and> CHR ''/'' \<notin> set (drop 8 path))"

section \<open>Properties\<close>

subsection \<open>Facts about strings\<close>


lemma lower_append: "lower (a @ b) = lower a @ lower b"
  by (simp add: lower_def)

lemma strip_decomp: "\<exists>p q. s = p @ strip s @ q \<and> (\<forall>c \<in> set p. isspace c) \<and> (\<forall>c \<in> set q. isspace c)"
proof -
  let ?p = "takeWhile isspace s"
  let ?r = "dropWhile isspace s"
  let ?q = "rev (takeWhile isspace (rev ?r))"
  have r: "?r = strip s @ ?q"
  proof -
    have "rev (takeWhile isspace (rev ?r) @ dropWhile isspace (rev ?r)) = rev (rev ?r)"
      by (simp only: takeWhile_dropWhile_id)
    then have "rev (dropWhile isspace (rev ?r)) @ rev (takeWhile isspace (rev ?r)) = ?r"
      by (simp only: rev_append rev_rev_ident)
    then show ?thesis by (simp only: strip_def)
  qed
  have "s = ?p @ ?r" by simp
  with r have "s = ?p @ strip s @ ?q" by simp
  moreover have "\<forall>c \<in> set ?p. isspace c" by (auto dest: set_takeWhileD)
  moreover have "\<forall>c \<in> set ?q. isspace c" by (auto dest: set_takeWhileD)
  ultimately show ?thesis by blast
qed




lemma sublist_drop_space_prefix:
  assumes "\<forall>c \<in> set p. isspace c" "w \<noteq> []" "\<not> isspace (hd w)" "sublist w (p @ r)"
  shows "sublist w r"
  using assms
proof (induction p)
  case Nil then show ?case by simp
next
  case (Cons c p)
  from Cons.prems(4) have "prefix w (c # p @ r) \<or> sublist w (p @ r)"
    by (simp add: sublist_Cons_right)
  moreover have "\<not> prefix w (c # p @ r)"
  proof
    assume "prefix w (c # p @ r)"
    with Cons.prems(2) have "hd w = c" by (cases w) auto
    with Cons.prems show False by simp
  qed
  ultimately show ?case using Cons by simp
qed

lemma sublist_drop_space_suffix:
  assumes "\<forall>c \<in> set q. isspace c" "w \<noteq> []" "\<not> isspace (last w)" "sublist w (r @ q)"
  shows "sublist w r"
proof -
  have "sublist (rev w) (rev q @ rev r)" using assms(4) by (metis rev_append sublist_rev)
  moreover have "\<forall>c \<in> set (rev q). isspace c" using assms(1) by simp
  moreover have "rev w \<noteq> []" using assms(2) by simp
  moreover have "\<not> isspace (hd (rev w))" using assms(2,3) by (simp add: hd_rev)
  ultimately have "sublist (rev w) (rev r)" by (blast intro: sublist_drop_space_prefix)
  then show ?thesis by (simp add: sublist_rev)
qed

lemma substr_in_strip:
  assumes "kw \<noteq> []" "\<not> isspace (hd kw)" "\<not> isspace (last kw)"
  shows "substr_in kw (strip s) = substr_in kw s"
proof -
  obtain p q where s: "s = p @ strip s @ q" and p: "\<forall>c \<in> set p. isspace c" and q: "\<forall>c \<in> set q. isspace c"
    using strip_decomp by blast
  show ?thesis unfolding substr_in_def
  proof
    assume "sublist kw (strip s)"
    then have "sublist kw (p @ strip s @ q)" by (metis sublist_appendI sublist_order.order_trans)
    with s show "sublist kw s" by simp
  next
    assume "sublist kw s"
    with s have "sublist kw (p @ strip s @ q)" by simp
    then have "sublist kw (strip s @ q)"
      using sublist_drop_space_prefix[OF p assms(1,2)] by blast
    then show "sublist kw (strip s)"
      using sublist_drop_space_suffix[OF q assms(1,3)] by blast
  qed
qed


lemma score_loop_acc: "score_loop kws t u acc = acc + score_sum kws t u"
  by (induction kws arbitrary: acc) (auto simp: score_sum_def Let_def)

lemma score_sum_count:
  "score_sum kws t u = 2 * int (keyword_hits kws t) + 3 * int (keyword_hits kws (lower u))"
  by (induction kws) (auto simp: score_sum_def keyword_hits_def)



lemma texts_of_append: "texts_of (xs @ ys) = texts_of xs @ texts_of ys"
  by (induction xs rule: texts_of.induct) auto

lemma traverse_steps:
  "\<exists>new. navigated (traverse B cs st) = navigated st @ new
        \<and> distinct (map fst new)
        \<and> set (map fst new) = fst ` set cs - visited st
        \<and> length new \<le> length cs
        \<and> all_text (traverse B cs st) = all_text st @ concat (map (\<lambda>t. '' '' @ t) (texts_of new))"
proof (induction cs arbitrary: st)
  case Nil
  show ?case by simp
next
  case (Cons c rest)
  obtain url score where c: "c = (url, score)" by (cases c)
  show ?case
  proof (cases "url \<in> visited st")
    case True
    from Cons.IH[of st] obtain new where
      "navigated (traverse B rest st) = navigated st @ new" "distinct (map fst new)"
      "set (map fst new) = fst ` set rest - visited st" "length new \<le> length rest"
      "all_text (traverse B rest st) = all_text st @ concat (map (\<lambda>t. '' '' @ t) (texts_of new))"
      by blast
    with True c show ?thesis by auto
  next
    case False
    obtain r w' where v: "visit_page B url (world st) = (r, w')" by (cases "visit_page B url (world st)")
    let ?t = "case r of Returns sub_text \<Rightarrow> all_text st @ '' '' @ sub_text | Raises \<Rightarrow> all_text st"
    let ?st2 = "st\<lparr>visited := insert url (visited st), all_text := ?t, world := w',
                    navigated := navigated st @ [(url, r)]\<rparr>"
    have step: "traverse B (c # rest) st = traverse B rest ?st2"
      using False c v by (cases r) (simp_all add: Let_def)
    from Cons.IH[of ?st2] obtain new where n:
      "navigated (traverse B rest ?st2) = navigated ?st2 @ new" "distinct (map fst new)"
      "set (map fst new) = fst ` set rest - visited ?st2" "length new \<le> length rest"
      "all_text (traverse B rest ?st2) = all_text ?st2 @ concat (map (\<lambda>t. '' '' @ t) (texts_of new))"
      by blast
    let ?new = "(url, r) # new"
    have "navigated (traverse B (c # rest) st) = navigated st @ ?new" using step n(1) by simp
    moreover have "distinct (map fst ?new)" using n(2,3) by auto
    moreover have "set (map fst ?new) = fst ` set (c # rest) - visited st"
      using n(3) False c by auto
    moreover have "length ?new \<le> length (c # rest)" using n(4) by simp
    moreover have "all_text (traverse B (c # rest) st)
        = all_text st @ concat (map (\<lambda>t. '' '' @ t) (texts_of ?new))"
      using step n(5) by (cases r) simp_all
    ultimately show ?thesis by blast
  qed
qed

lemma visit_top_pages_steps:
  "distinct (map fst (navigated (visit_top_pages B cands home w)))
   \<and> set (map fst (navigated (visit_top_pages B cands home w))) = fst ` set (take 3 cands)
   \<and> length (navigated (visit_top_pages B cands home w)) \<le> 3
   \<and> all_text (visit_top_pages B cands home w)
       = home @ concat (map (\<lambda>t. '' '' @ t) (texts_of (navigated (visit_top_pages B cands home w))))"
proof -
  let ?st = "\<lparr>visited = {}, all_text = home, world = w, navigated = []\<rparr>"
  from traverse_steps[of B "take 3 cands" ?st] obtain new where n:
    "navigated (traverse B (take 3 cands) ?st) = navigated ?st @ new" "distinct (map fst new)"
    "set (map fst new) = fst ` set (take 3 cands) - visited ?st" "length new \<le> length (take 3 cands)"
    "all_text (traverse B (take 3 cands) ?st) = all_text ?st @ concat (map (\<lambda>t. '' '' @ t) (texts_of new))"
    by blast
  then show ?thesis by (simp add: visit_top_pages_def)
qed


subsection \<open>Facts about the score\<close>

lemma keywords_no_space:
  "\<forall>kw \<in> set IMPORTANT_KEYWORDS. kw \<noteq> [] \<and> \<not> isspace (hd kw) \<and> \<not> isspace (last kw)"
  by (simp add: IMPORTANT_KEYWORDS_def isspace_def)

lemma keyword_hits_strip:
  assumes "\<forall>kw \<in> set kws. kw \<noteq> [] \<and> \<not> isspace (hd kw) \<and> \<not> isspace (last kw)"
  shows "keyword_hits kws (strip s) = keyword_hits kws s"
proof -
  have "filter (\<lambda>kw. substr_in kw (strip s)) kws = filter (\<lambda>kw. substr_in kw s) kws"
    using assms by (intro filter_cong) (auto simp: substr_in_strip)
  then show ?thesis by (simp add: keyword_hits_def)
qed

lemma score_loop_spec:
  "score_loop IMPORTANT_KEYWORDS (strip (lower t)) u 0 = spec_score IMPORTANT_KEYWORDS t u"
  by (simp add: score_loop_acc score_sum_count spec_score_def
      keyword_hits_strip[OF keywords_no_space])

lemma score_sum_spec:
  "score_sum IMPORTANT_KEYWORDS (strip (lower t)) u = spec_score IMPORTANT_KEYWORDS t u"
  by (simp add: score_sum_count spec_score_def keyword_hits_strip[OF keywords_no_space])

lemma score_anchor_admitted:
  assumes "get_attribute_href a = Returns (Some h)" "h \<noteq> []" "inner_text a = Returns t"
    "urljoin L website h = Returns u" "substr_in domain u"
  shows "score_anchor L IMPORTANT_KEYWORDS website domain a =
           (if 0 < spec_score IMPORTANT_KEYWORDS t u
            then Some (u, spec_score IMPORTANT_KEYWORDS t u) else None)"
  using assms by (simp add: score_anchor_def Let_def score_loop_spec)

lemma score_anchor_SomeD:
  assumes "score_anchor L IMPORTANT_KEYWORDS website domain a = Some (u, s)"
  shows "\<exists>h t. get_attribute_href a = Returns (Some h) \<and> h \<noteq> [] \<and> inner_text a = Returns t
          \<and> urljoin L website h = Returns u \<and> substr_in domain u
          \<and> s = spec_score IMPORTANT_KEYWORDS t u \<and> 0 < s"
  using assms
  by (auto simp: score_anchor_def Let_def score_loop_spec
      split: outcome.splits option.splits if_splits)

lemma collect_links_map_filter:
  "collect_links L kws website domain anchors
     = List.map_filter (score_anchor L kws website domain) anchors"
  by (induction anchors) (auto simp: List.map_filter_simps split: option.splits)

lemma sort_by_score_sorted: "sorted_wrt (\<lambda>x y. snd y \<le> snd x) (sort_by_score cands)"
proof -
  have "sorted (map (\<lambda>x. - snd x) (sort_key (\<lambda>x. - snd x) cands))" by (rule sorted_sort_key)
  then show ?thesis by (simp add: sort_by_score_def sorted_map)
qed

lemma sort_by_score_stable:
  "filter (\<lambda>c. snd c = k) (sort_by_score cands) = filter (\<lambda>c. snd c = k) cands"
proof -
  have "filter (\<lambda>c. - snd c = - k) (sort_key (\<lambda>x. - snd x) cands)
          = filter (\<lambda>c. - snd c = - k) cands"
    by (rule sort_key_stable)
  then show ?thesis by (simp add: sort_by_score_def)
qed

lemma set_sort_by_score: "set (sort_by_score cands) = set cands"
  by (simp add: sort_by_score_def)


subsection \<open>Link scorer: score, dropping, order\<close>

text \<open>
  C7. An anchor that passes the checks of the loop (an href that is present and not
  empty, a readable text, a resolved URL containing the domain) is a candidate exactly
  when its score is positive, and its score is then 2 times the number of keywords of
  the fixed list occurring in the lowercased visible text plus 3 times the number
  occurring in the lowercased resolved URL, whether computed by the loop of app.py or the
  sum of server.py. The candidates are the anchors' pairs in encounter order, sorted by
  descending score, and the sort keeps the encounter order among equal scores.
\<close>

theorem link_scorer_score_and_order:
  "(\<forall>a h t u. get_attribute_href a = Returns (Some h) \<and> h \<noteq> [] \<and> inner_text a = Returns t
        \<and> urljoin L website h = Returns u \<and> substr_in domain u
      \<longrightarrow> score_anchor L IMPORTANT_KEYWORDS website domain a
            = (if 0 < spec_score IMPORTANT_KEYWORDS t u
               then Some (u, spec_score IMPORTANT_KEYWORDS t u) else None)
          \<and> score_sum IMPORTANT_KEYWORDS (strip (lower t)) u = spec_score IMPORTANT_KEYWORDS t u)
   \<and> (\<forall>c \<in> set (candidate_links L IMPORTANT_KEYWORDS website domain anchors).
         0 < snd c \<and> (\<exists>a \<in> set anchors. score_anchor L IMPORTANT_KEYWORDS website domain a = Some c))
   \<and> collect_links L IMPORTANT_KEYWORDS website domain anchors
        = List.map_filter (score_anchor L IMPORTANT_KEYWORDS website domain) anchors
   \<and> sorted_wrt (\<lambda>x y. snd y \<le> snd x) (candidate_links L IMPORTANT_KEYWORDS website domain anchors)
   \<and> (\<forall>k. filter (\<lambda>c. snd c = k) (candidate_links L IMPORTANT_KEYWORDS website domain anchors)
           = filter (\<lambda>c. snd c = k) (collect_links L IMPORTANT_KEYWORDS website domain anchors))"
proof (intro conjI allI impI ballI)
  fix a :: anchor and h t u
  assume "get_attribute_href a = Returns (Some h) \<and> h \<noteq> [] \<and> inner_text a = Returns t
        \<and> urljoin L website h = Returns u \<and> substr_in domain u"
  then show "score_anchor L IMPORTANT_KEYWORDS website domain a
            = (if 0 < spec_score IMPORTANT_KEYWORDS t u
               then Some (u, spec_score IMPORTANT_KEYWORDS t u) else None)"
    by (simp add: score_anchor_admitted)
next
  fix t u
  show "score_sum IMPORTANT_KEYWORDS (strip (lower t)) u = spec_score IMPORTANT_KEYWORDS t u"
    by (rule score_sum_spec)
next
  fix c
  assume "c \<in> set (candidate_links L IMPORTANT_KEYWORDS website domain anchors)"
  then have "c \<in> set (List.map_filter (score_anchor L IMPORTANT_KEYWORDS website domain) anchors)"
    by (simp add: candidate_links_def set_sort_by_score collect_links_map_filter)
  then obtain a where a: "a \<in> set anchors"
      "score_anchor L IMPORTANT_KEYWORDS website domain a = Some c"
    by (auto simp: List.map_filter_def)
  then show "\<exists>a \<in> set anchors. score_anchor L IMPORTANT_KEYWORDS website domain a = Some c"
    by blast
  from a(2) show "0 < snd c" using score_anchor_SomeD[of L website domain a "fst c" "snd c"]
    by auto
next
  show "collect_links L IMPORTANT_KEYWORDS website domain anchors
        = List.map_filter (score_anchor L IMPORTANT_KEYWORDS website domain) anchors"
    by (rule collect_links_map_filter)
next
  show "sorted_wrt (\<lambda>x y. snd y \<le> snd x) (candidate_links L IMPORTANT_KEYWORDS website domain anchors)"
    by (simp add: candidate_links_def sort_by_score_sorted)
next
  fix k
  show "filter (\<lambda>c. snd c = k) (candidate_links L IMPORTANT_KEYWORDS website domain anchors)
           = filter (\<lambda>c. snd c = k) (collect_links L IMPORTANT_KEYWORDS website domain anchors)"
    by (simp add: candidate_links_def sort_by_score_stable)
qed

theorem link_scorer_score_and_order_witness:
  "score_anchor example_urllib IMPORTANT_KEYWORDS ''https://acme.test'' ''acme.test''
       \<lparr>get_attribute_href = Returns (Some ''/about''), inner_text = Returns '' About Us ''\<rparr>
     = Some (''https://acme.test/about'', 5)
   \<and> candidate_links example_urllib IMPORTANT_KEYWORDS ''https://acme.test'' ''acme.test''
        [\<lparr>get_attribute_href = Returns (Some ''/team''), inner_text = Returns ''Who we are''\<rparr>,
         \<lparr>get_attribute_href = Returns (Some ''/jobs''), inner_text = Returns ''Jobs''\<rparr>,
         \<lparr>get_attribute_href = Returns (Some ''/about''), inner_text = Returns '' About Us ''\<rparr>,
         \<lparr>get_attribute_href = Returns (Some ''/press''), inner_text = Returns ''Our group''\<rparr>]
     = [(''https://acme.test/about'', 5), (''https://acme.test/team'', 2), (''https://acme.test/press'', 2)]
   \<and> 0 < snd (''https://acme.test/team'', 2::int)"
proof -
  let ?W = "''https://acme.test''" and ?D = "''acme.test''"
  let ?a = "\<lparr>get_attribute_href = Returns (Some ''/about''), inner_text = Returns '' About Us ''\<rparr>"
  let ?as = "[\<lparr>get_attribute_href = Returns (Some ''/team''), inner_text = Returns ''Who we are''\<rparr>,
         \<lparr>get_attribute_href = Returns (Some ''/jobs''), inner_text = Returns ''Jobs''\<rparr>,
         ?a,
         \<lparr>get_attribute_href = Returns (Some ''/press''), inner_text = Returns ''Our group''\<rparr>]"
  note inst = link_scorer_score_and_order[of example_urllib ?W ?D ?as]
  have u: "urljoin example_urllib ?W ''/about'' = Returns ''https://acme.test/about''"
    by code_simp
  have d: "substr_in ?D ''https://acme.test/about''" by code_simp
  have sc: "spec_score IMPORTANT_KEYWORDS '' About Us '' ''https://acme.test/about'' = 5"
    by code_simp
  have cl: "candidate_links example_urllib IMPORTANT_KEYWORDS ?W ?D ?as
     = [(''https://acme.test/about'', 5), (''https://acme.test/team'', 2), (''https://acme.test/press'', 2)]"
    by code_simp
  from inst have "get_attribute_href ?a = Returns (Some ''/about'') \<and> ''/about'' \<noteq> []
       \<and> inner_text ?a = Returns '' About Us ''
       \<and> urljoin example_urllib ?W ''/about'' = Returns ''https://acme.test/about''
       \<and> substr_in ?D ''https://acme.test/about''
     \<longrightarrow> score_anchor example_urllib IMPORTANT_KEYWORDS ?W ?D ?a
            = (if 0 < spec_score IMPORTANT_KEYWORDS '' About Us '' ''https://acme.test/about''
               then Some (''https://acme.test/about'',
                          spec_score IMPORTANT_KEYWORDS '' About Us '' ''https://acme.test/about'')
               else None)"
    by blast
  then have 1: "score_anchor example_urllib IMPORTANT_KEYWORDS ?W ?D ?a
      = Some (''https://acme.test/about'', 5)"
    using u d sc by simp
  from inst have "\<forall>c \<in> set (candidate_links example_urllib IMPORTANT_KEYWORDS ?W ?D ?as). 0 < snd c"
    by blast
  then have "\<forall>c \<in> set [(''https://acme.test/about'', 5::int), (''https://acme.test/team'', 2),
                    (''https://acme.test/press'', 2)]. 0 < snd c"
    by (simp only: cl)
  then have 2: "0 < snd (''https://acme.test/team'', 2::int)" by simp
  from 1 cl 2 show ?thesis by blast
qed

subsection \<open>Monotonic scoring\<close>




subsection \<open>The same-domain check\<close>

text \<open>
  C1. The check \<open>domain not in full_url\<close> looks for the base host anywhere in the resolved
  URL, not in its host. For the base \<open>https://acme.test\<close> and an absolute href to
  \<open>evil.example\<close> that carries \<open>acme.test\<close> in its query, with a URL library that
  resolves and parses the two URLs as \<open>urllib.parse\<close> does, the anchor is a candidate
  although its resolved host neither equals nor contains the base host.
\<close>

theorem same_domain_check_admits_other_host:
  assumes "netloc L ''https://acme.test'' = Returns ''acme.test''"
    and "urljoin L ''https://acme.test'' ''https://evil.example/about?ref=acme.test''
           = Returns ''https://evil.example/about?ref=acme.test''"
    and "netloc L ''https://evil.example/about?ref=acme.test'' = Returns ''evil.example''"
  shows "link_discovery L ''https://acme.test''
           [\<lparr>get_attribute_href = Returns (Some ''https://evil.example/about?ref=acme.test''),
             inner_text = Returns ''About''\<rparr>]
         = Returns [(''https://evil.example/about?ref=acme.test'', 5)]
       \<and> netloc L ''https://evil.example/about?ref=acme.test'' = Returns ''evil.example''
       \<and> ''evil.example'' \<noteq> ''acme.test'' \<and> \<not> substr_in ''acme.test'' ''evil.example''"
proof -
  have d: "substr_in ''acme.test'' ''https://evil.example/about?ref=acme.test''" by code_simp
  have sc: "score_loop IMPORTANT_KEYWORDS (strip (lower ''About''))
              ''https://evil.example/about?ref=acme.test'' 0 = 5"
    by code_simp
  have n: "\<not> substr_in ''acme.test'' ''evil.example''" by code_simp
  have "link_discovery L ''https://acme.test''
           [\<lparr>get_attribute_href = Returns (Some ''https://evil.example/about?ref=acme.test''),
             inner_text = Returns ''About''\<rparr>]
         = Returns [(''https://evil.example/about?ref=acme.test'', 5)]"
    using assms(1,2) d sc
    by (simp add: link_discovery_def candidate_links_def sort_by_score_def score_anchor_def)
  with assms(3) n show ?thesis by simp
qed

theorem same_domain_check_admits_other_host_witness:
  "netloc example_urllib ''https://acme.test'' = Returns ''acme.test''
   \<and> urljoin example_urllib ''https://acme.test'' ''https://evil.example/about?ref=acme.test''
        = Returns ''https://evil.example/about?ref=acme.test''
   \<and> netloc example_urllib ''https://evil.example/about?ref=acme.test'' = Returns ''evil.example''
   \<and> link_discovery example_urllib ''https://acme.test''
           [\<lparr>get_attribute_href = Returns (Some ''https://evil.example/about?ref=acme.test''),
             inner_text = Returns ''About''\<rparr>]
         = Returns [(''https://evil.example/about?ref=acme.test'', 5)]"
proof -
  have h1: "netloc example_urllib ''https://acme.test'' = Returns ''acme.test''" by code_simp
  have h2: "urljoin example_urllib ''https://acme.test'' ''https://evil.example/about?ref=acme.test''
        = Returns ''https://evil.example/about?ref=acme.test''" by code_simp
  have h3: "netloc example_urllib ''https://evil.example/about?ref=acme.test'' = Returns ''evil.example''"
    by code_simp
  from same_domain_check_admits_other_host[OF h1 h2 h3] h1 h2 h3 show ?thesis by blast
qed


subsection \<open>Traversal: cap, no revisit, failures skipped\<close>

text \<open>
  C2. The traversal passes at most 3 URLs to \<open>page.goto\<close>, no URL twice, whatever the
  candidate list repeats; and from any state of the loop, the URLs the loop navigates to
  are none of those already in \<open>visited\<close>.
\<close>

theorem traversal_cap_and_no_revisit:
  "length (navigated (visit_top_pages B cands home w)) \<le> 3
   \<and> distinct (map fst (navigated (visit_top_pages B cands home w)))
   \<and> (\<exists>new. navigated (traverse B cs st) = navigated st @ new
          \<and> distinct (map fst new) \<and> set (map fst new) \<inter> visited st = {})"
proof -
  from traverse_steps[of B cs st] have
    "\<exists>new. navigated (traverse B cs st) = navigated st @ new
          \<and> distinct (map fst new) \<and> set (map fst new) \<inter> visited st = {}"
    by blast
  with visit_top_pages_steps[of B cands home w] show ?thesis by blast
qed

lemma remdups_snoc: "remdups (xs @ [u]) = remdups (filter (\<lambda>x. x \<noteq> u) xs) @ [u]"
  by (induction xs) auto

lemma first_occurrences_Cons:
  "rev (remdups (rev (u # us))) = u # rev (remdups (rev (filter (\<lambda>x. x \<noteq> u) us)))"
  by (simp add: remdups_snoc rev_filter)

lemma traverse_aggregate:
  "(all_text (traverse B cs st), world (traverse B cs st))
     = aggregate B (rev (remdups (rev (filter (\<lambda>u. u \<notin> visited st) (map fst cs)))))
         (all_text st) (world st)"
proof (induction cs arbitrary: st)
  case Nil
  show ?case by simp
next
  case (Cons c rest)
  obtain url score where c: "c = (url, score)" by (cases c)
  show ?case
  proof (cases "url \<in> visited st")
    case True
    with c Cons.IH[of st] show ?thesis by simp
  next
    case False
    have f: "filter (\<lambda>x. x \<noteq> url) (filter (\<lambda>u. u \<notin> visited st) (map fst rest))
        = filter (\<lambda>u. u \<notin> insert url (visited st)) (map fst rest)"
      by (auto intro: filter_cong)
    have others: "rev (remdups (rev (filter (\<lambda>u. u \<notin> visited st) (map fst (c # rest)))))
        = url # rev (remdups (rev (filter (\<lambda>u. u \<notin> insert url (visited st)) (map fst rest))))"
    proof -
      have "filter (\<lambda>u. u \<notin> visited st) (map fst (c # rest))
          = url # filter (\<lambda>u. u \<notin> visited st) (map fst rest)"
        using False c by simp
      then show ?thesis by (simp only: first_occurrences_Cons f)
    qed
    obtain ok w1 where g: "goto B url (world st) = (ok, w1)" by (cases "goto B url (world st)")
    show ?thesis
    proof (cases ok)
      case fl: False
      let ?st2 = "st\<lparr>visited := insert url (visited st), world := w1,
                      navigated := navigated st @ [(url, Raises)]\<rparr>"
      have "traverse B (c # rest) st = traverse B rest ?st2"
        using False c g fl by (simp add: visit_page_def Let_def)
      then show ?thesis unfolding others using Cons.IH[of ?st2] g fl by simp
    next
      case tr: True
      obtain r w2 where b: "body_text B w1 = (r, w2)" by (cases "body_text B w1")
      show ?thesis
      proof (cases r)
        case Raises
        let ?st2 = "st\<lparr>visited := insert url (visited st), world := w2,
                      navigated := navigated st @ [(url, Raises)]\<rparr>"
        have "traverse B (c # rest) st = traverse B rest ?st2"
          using False c g tr b Raises by (simp add: visit_page_def Let_def)
        then show ?thesis unfolding others using Cons.IH[of ?st2] g tr b Raises by simp
      next
        case (Returns t)
        let ?st2 = "st\<lparr>visited := insert url (visited st),
                      all_text := all_text st @ '' '' @ t, world := w2,
                      navigated := navigated st @ [(url, Returns t)]\<rparr>"
        have "traverse B (c # rest) st = traverse B rest ?st2"
          using False c g tr b Returns by (simp add: visit_page_def Let_def)
        then show ?thesis unfolding others using Cons.IH[of ?st2] g tr b Returns by simp
      qed
    qed
  qed
qed

lemma visit_top_pages_aggregate:
  "(all_text (visit_top_pages B cands home w), world (visit_top_pages B cands home w))
     = aggregate B (rev (remdups (rev (map fst (take 3 cands))))) home w"
  using traverse_aggregate[of B "take 3 cands"
      "\<lparr>visited = {}, all_text = home, world = w, navigated = []\<rparr>"]
  by (simp add: visit_top_pages_def)


text \<open>
  C3. The loop over the first three candidates computes the aggregation of the
  specification over their distinct URLs in order: a URL whose navigation fails, or
  whose text cannot be read, is skipped and the loop goes on with the rest; every other
  URL adds a space and its text. So the text after the loop starts with the homepage
  text and holds the text of every visit that succeeded, and every URL among the first
  three candidates is tried. When, of three distinct candidates, the second fails to
  load or its text fails to be read, the text is the homepage text with the texts of the
  first and the third.
\<close>

theorem failing_subpage_is_skipped:
  "(all_text (visit_top_pages B cands home w), world (visit_top_pages B cands home w))
      = aggregate B (rev (remdups (rev (map fst (take 3 cands))))) home w
   \<and> prefix home (all_text (visit_top_pages B cands home w))
   \<and> all_text (visit_top_pages B cands home w)
       = home @ concat (map (\<lambda>t. '' '' @ t) (texts_of (navigated (visit_top_pages B cands home w))))
   \<and> set (map fst (navigated (visit_top_pages B cands home w))) = fst ` set (take 3 cands)
   \<and> (goto B url v = (False, v1)
        \<longrightarrow> aggregate B (url # others) text v = aggregate B others text v1)
   \<and> (goto B url v = (True, v1) \<and> body_text B v1 = (Raises, v2)
        \<longrightarrow> aggregate B (url # others) text v = aggregate B others text v2)
   \<and> (goto B url v = (True, v1) \<and> body_text B v1 = (Returns t, v2)
        \<longrightarrow> aggregate B (url # others) text v = aggregate B others (text @ '' '' @ t) v2)
   \<and> (distinct [u1, u2, u3]
        \<and> goto B u1 w = (True, a1) \<and> body_text B a1 = (Returns t1, w1)
        \<and> goto B u2 w1 = (False, w2)
        \<and> goto B u3 w2 = (True, a3) \<and> body_text B a3 = (Returns t3, w3)
      \<longrightarrow> all_text (visit_top_pages B ((u1, s1) # (u2, s2) # (u3, s3) # rest) home w)
            = home @ '' '' @ t1 @ '' '' @ t3)
   \<and> (distinct [u1, u2, u3]
        \<and> goto B u1 w = (True, a1) \<and> body_text B a1 = (Returns t1, w1)
        \<and> goto B u2 w1 = (True, a2) \<and> body_text B a2 = (Raises, w2)
        \<and> goto B u3 w2 = (True, a3) \<and> body_text B a3 = (Returns t3, w3)
      \<longrightarrow> all_text (visit_top_pages B ((u1, s1) # (u2, s2) # (u3, s3) # rest) home w)
            = home @ '' '' @ t1 @ '' '' @ t3)"
proof -
  note agg = visit_top_pages_aggregate[of B cands home w]
  note steps = visit_top_pages_steps[of B cands home w]
  have c1: "(all_text (visit_top_pages B cands home w), world (visit_top_pages B cands home w))
      = aggregate B (rev (remdups (rev (map fst (take 3 cands))))) home w"
    by (rule agg)
  have c3: "all_text (visit_top_pages B cands home w)
       = home @ concat (map (\<lambda>t. '' '' @ t) (texts_of (navigated (visit_top_pages B cands home w))))"
    using steps by blast
  have c2: "prefix home (all_text (visit_top_pages B cands home w))"
    by (subst c3) (rule prefixI, rule refl)
  have c4: "set (map fst (navigated (visit_top_pages B cands home w))) = fst ` set (take 3 cands)"
    using steps by blast
  have c5: "goto B url v = (False, v1)
        \<longrightarrow> aggregate B (url # others) text v = aggregate B others text v1"
    by simp
  have c6: "goto B url v = (True, v1) \<and> body_text B v1 = (Raises, v2)
        \<longrightarrow> aggregate B (url # others) text v = aggregate B others text v2"
    by simp
  have c7: "goto B url v = (True, v1) \<and> body_text B v1 = (Returns t, v2)
        \<longrightarrow> aggregate B (url # others) text v = aggregate B others (text @ '' '' @ t) v2"
    by simp
  have three: "distinct [u1, u2, u3] \<Longrightarrow>
      rev (remdups (rev (map fst (take 3 ((u1, s1) # (u2, s2) # (u3, s3) # rest))))) = [u1, u2, u3]"
    by auto
  have c8: "distinct [u1, u2, u3]
        \<and> goto B u1 w = (True, a1) \<and> body_text B a1 = (Returns t1, w1)
        \<and> goto B u2 w1 = (False, w2)
        \<and> goto B u3 w2 = (True, a3) \<and> body_text B a3 = (Returns t3, w3)
      \<longrightarrow> all_text (visit_top_pages B ((u1, s1) # (u2, s2) # (u3, s3) # rest) home w)
            = home @ '' '' @ t1 @ '' '' @ t3"
  proof
    assume a: "distinct [u1, u2, u3]
        \<and> goto B u1 w = (True, a1) \<and> body_text B a1 = (Returns t1, w1)
        \<and> goto B u2 w1 = (False, w2)
        \<and> goto B u3 w2 = (True, a3) \<and> body_text B a3 = (Returns t3, w3)"
    then have d: "distinct [u1, u2, u3]" by blast
    have "aggregate B [u1, u2, u3] home w = (home @ '' '' @ t1 @ '' '' @ t3, w3)"
      using a by simp
    with visit_top_pages_aggregate[of B "(u1, s1) # (u2, s2) # (u3, s3) # rest" home w]
    show "all_text (visit_top_pages B ((u1, s1) # (u2, s2) # (u3, s3) # rest) home w)
            = home @ '' '' @ t1 @ '' '' @ t3"
      unfolding three[OF d] by simp
  qed
  have c9: "distinct [u1, u2, u3]
        \<and> goto B u1 w = (True, a1) \<and> body_text B a1 = (Returns t1, w1)
        \<and> goto B u2 w1 = (True, a2) \<and> body_text B a2 = (Raises, w2)
        \<and> goto B u3 w2 = (True, a3) \<and> body_text B a3 = (Returns t3, w3)
      \<longrightarrow> all_text (visit_top_pages B ((u1, s1) # (u2, s2) # (u3, s3) # rest) home w)
            = home @ '' '' @ t1 @ '' '' @ t3"
  proof
    assume a: "distinct [u1, u2, u3]
        \<and> goto B u1 w = (True, a1) \<and> body_text B a1 = (Returns t1, w1)
        \<and> goto B u2 w1 = (True, a2) \<and> body_text B a2 = (Raises, w2)
        \<and> goto B u3 w2 = (True, a3) \<and> body_text B a3 = (Returns t3, w3)"
    then have d: "distinct [u1, u2, u3]" by blast
    have "aggregate B [u1, u2, u3] home w = (home @ '' '' @ t1 @ '' '' @ t3, w3)"
      using a by simp
    with visit_top_pages_aggregate[of B "(u1, s1) # (u2, s2) # (u3, s3) # rest" home w]
    show "all_text (visit_top_pages B ((u1, s1) # (u2, s2) # (u3, s3) # rest) home w)
            = home @ '' '' @ t1 @ '' '' @ t3"
      unfolding three[OF d] by simp
  qed
  from c1 c2 c3 c4 c5 c6 c7 c8 c9 show ?thesis by (intro conjI)
qed


theorem failing_subpage_is_skipped_witness:
  "all_text (visit_top_pages
       (example_flaky_browser [(''https://acme.test/about'', Returns ''About Acme''),
                               (''https://acme.test/who'', Returns ''Who we are'')])
       [(''https://acme.test/about'', 5), (''https://acme.test/company'', 3),
        (''https://acme.test/who'', 3), (''https://acme.test/profile'', 3)]
       ''Acme'' ''https://acme.test'')
     = ''Acme About Acme Who we are''
   \<and> all_text (visit_top_pages
       (example_flaky_browser [(''https://acme.test/about'', Returns ''About Acme''),
                               (''https://acme.test/company'', Raises),
                               (''https://acme.test/who'', Returns ''Who we are'')])
       [(''https://acme.test/about'', 5), (''https://acme.test/company'', 3),
        (''https://acme.test/who'', 3), (''https://acme.test/profile'', 3)]
       ''Acme'' ''https://acme.test'')
     = ''Acme About Acme Who we are''
   \<and> goto (example_flaky_browser [(''https://acme.test/about'', Returns ''About Acme''),
                               (''https://acme.test/who'', Returns ''Who we are'')])
        ''https://acme.test/company'' ''https://acme.test/about''
     = (False, ''https://acme.test/company'')
   \<and> body_text (example_flaky_browser [(''https://acme.test/about'', Returns ''About Acme''),
                               (''https://acme.test/company'', Raises),
                               (''https://acme.test/who'', Returns ''Who we are'')])
        ''https://acme.test/company''
     = (Raises, ''https://acme.test/company'')"
proof -
  let ?A = "example_flaky_browser [(''https://acme.test/about'', Returns ''About Acme''),
                               (''https://acme.test/who'', Returns ''Who we are'')]"
  let ?B = "example_flaky_browser [(''https://acme.test/about'', Returns ''About Acme''),
                               (''https://acme.test/company'', Raises),
                               (''https://acme.test/who'', Returns ''Who we are'')]"
  let ?u1 = "''https://acme.test/about''" and ?u2 = "''https://acme.test/company''"
  let ?u3 = "''https://acme.test/who''"
  have d: "distinct [?u1, ?u2, ?u3]" by simp
  have a1: "goto ?A ?u1 ''https://acme.test'' = (True, ?u1)"
    "body_text ?A ?u1 = (Returns ''About Acme'', ?u1)"
    "goto ?A ?u2 ?u1 = (False, ?u2)"
    "goto ?A ?u3 ?u2 = (True, ?u3)"
    "body_text ?A ?u3 = (Returns ''Who we are'', ?u3)"
    by (simp_all add: example_flaky_browser_def)
  have b1: "goto ?B ?u1 ''https://acme.test'' = (True, ?u1)"
    "body_text ?B ?u1 = (Returns ''About Acme'', ?u1)"
    "goto ?B ?u2 ?u1 = (True, ?u2)"
    "body_text ?B ?u2 = (Raises, ?u2)"
    "goto ?B ?u3 ?u2 = (True, ?u3)"
    "body_text ?B ?u3 = (Returns ''Who we are'', ?u3)"
    by (simp_all add: example_flaky_browser_def)
  note sa = failing_subpage_is_skipped[where B="?A" and w="''https://acme.test''"
      and ?u1.0="?u1" and ?u2.0="?u2" and ?u3.0="?u3" and ?a1.0="?u1" and ?t1.0="''About Acme''"
      and ?w1.0="?u1" and ?w2.0="?u2" and ?a3.0="?u3" and ?t3.0="''Who we are''" and ?w3.0="?u3"
      and ?s1.0=5 and ?s2.0=3 and ?s3.0=3 and rest="[(''https://acme.test/profile'', 3)]"
      and home="''Acme''",
      THEN conjunct2, THEN conjunct2, THEN conjunct2, THEN conjunct2, THEN conjunct2,
      THEN conjunct2, THEN conjunct2, THEN conjunct1]
  note sb = failing_subpage_is_skipped[where B="?B" and w="''https://acme.test''"
      and ?u1.0="?u1" and ?u2.0="?u2" and ?u3.0="?u3" and ?a1.0="?u1" and ?t1.0="''About Acme''"
      and ?w1.0="?u1" and ?a2.0="?u2" and ?w2.0="?u2" and ?a3.0="?u3" and ?t3.0="''Who we are''"
      and ?w3.0="?u3"
      and ?s1.0=5 and ?s2.0=3 and ?s3.0=3 and rest="[(''https://acme.test/profile'', 3)]"
      and home="''Acme''",
      THEN conjunct2, THEN conjunct2, THEN conjunct2, THEN conjunct2, THEN conjunct2,
      THEN conjunct2, THEN conjunct2, THEN conjunct2]
  from sa d a1 have "all_text (visit_top_pages ?A
       [(?u1, 5), (?u2, 3), (?u3, 3), (''https://acme.test/profile'', 3)]
       ''Acme'' ''https://acme.test'') = ''Acme'' @ '' '' @ ''About Acme'' @ '' '' @ ''Who we are''"
    by blast
  then have 1: "all_text (visit_top_pages ?A
       [(?u1, 5), (?u2, 3), (?u3, 3), (''https://acme.test/profile'', 3)]
       ''Acme'' ''https://acme.test'') = ''Acme About Acme Who we are''"
    by simp
  from sb d b1 have "all_text (visit_top_pages ?B
       [(?u1, 5), (?u2, 3), (?u3, 3), (''https://acme.test/profile'', 3)]
       ''Acme'' ''https://acme.test'') = ''Acme'' @ '' '' @ ''About Acme'' @ '' '' @ ''Who we are''"
    by blast
  then have 2: "all_text (visit_top_pages ?B
       [(?u1, 5), (?u2, 3), (?u3, 3), (''https://acme.test/profile'', 3)]
       ''Acme'' ''https://acme.test'') = ''Acme About Acme Who we are''"
    by simp
  from 1 2 a1(3) b1(4) show ?thesis by (intro conjI)
qed

text \<open>
  C10. The three candidates are taken before the duplicates are skipped: when the first
  three entries of the candidate list repeat a URL, fewer than three pages are visited,
  and only URLs of the first three entries are, whatever follows in the list.
\<close>

theorem top_three_taken_before_dedup:
  assumes "\<not> distinct (map fst (take 3 cands))"
  shows "length (navigated (visit_top_pages B cands home w)) < 3
       \<and> set (map fst (navigated (visit_top_pages B cands home w))) \<subseteq> fst ` set (take 3 cands)"
proof -
  let ?n = "map fst (navigated (visit_top_pages B cands home w))"
  have d: "distinct ?n" and s: "set ?n = set (map fst (take 3 cands))"
    using visit_top_pages_steps[of B cands home w] by auto
  have "length ?n = card (set ?n)" using distinct_card[OF d] by (simp only:)
  also have "\<dots> = card (set (map fst (take 3 cands)))" using s by simp
  also have "\<dots> < length (map fst (take 3 cands))"
    using assms card_distinct[of "map fst (take 3 cands)"] card_length[of "map fst (take 3 cands)"]
    by (cases "card (set (map fst (take 3 cands))) = length (map fst (take 3 cands))") auto
  also have "\<dots> \<le> 3" by simp
  finally have "length ?n < 3" .
  with s show ?thesis by simp
qed

theorem top_three_taken_before_dedup_witness:
  "\<not> distinct (map fst (take 3 [(''https://acme.test/about'', 5::int), (''https://acme.test/about'', 5),
                               (''https://acme.test/who'', 3), (''https://acme.test/profile'', 3)]))
   \<and> length (navigated (visit_top_pages
         (example_browser [(''https://acme.test/about'', ''About Acme''),
                           (''https://acme.test/who'', ''Who we are''),
                           (''https://acme.test/profile'', ''Profile'')])
         [(''https://acme.test/about'', 5), (''https://acme.test/about'', 5),
          (''https://acme.test/who'', 3), (''https://acme.test/profile'', 3)]
         ''Acme'' ''https://acme.test'')) < 3
   \<and> map fst (navigated (visit_top_pages
         (example_browser [(''https://acme.test/about'', ''About Acme''),
                           (''https://acme.test/who'', ''Who we are''),
                           (''https://acme.test/profile'', ''Profile'')])
         [(''https://acme.test/about'', 5), (''https://acme.test/about'', 5),
          (''https://acme.test/who'', 3), (''https://acme.test/profile'', 3)]
         ''Acme'' ''https://acme.test''))
     = [''https://acme.test/about'', ''https://acme.test/who'']"
proof -
  let ?B = "example_browser [(''https://acme.test/about'', ''About Acme''),
                           (''https://acme.test/who'', ''Who we are''),
                           (''https://acme.test/profile'', ''Profile'')]"
  let ?C = "[(''https://acme.test/about'', 5::int), (''https://acme.test/about'', 5),
          (''https://acme.test/who'', 3), (''https://acme.test/profile'', 3)]"
  have h: "\<not> distinct (map fst (take 3 ?C))" by simp
  have e: "map fst (navigated (visit_top_pages ?B ?C ''Acme'' ''https://acme.test''))
     = [''https://acme.test/about'', ''https://acme.test/who'']"
    by (simp add: visit_top_pages_def visit_page_def example_browser_def Let_def)
  from top_three_taken_before_dedup[OF h, of ?B "''Acme''" "''https://acme.test''"] h e
  show ?thesis by blast
qed

subsection \<open>The matcher and what patterns denote\<close>


declare re_search.simps [simp del]

lemma run_prefixes:
  "(\<lambda>i. drop i s) ` {a .. length (takeWhile P s)}
     = {rest. \<exists>m. a \<le> length m \<and> (\<forall>c \<in> set m. P c) \<and> s = m @ rest}"
proof (intro set_eqI iffI)
  fix rest
  assume "rest \<in> (\<lambda>i. drop i s) ` {a .. length (takeWhile P s)}"
  then obtain i where i: "a \<le> i" "i \<le> length (takeWhile P s)" "rest = drop i s" by auto
  have le: "length (takeWhile P s) \<le> length s" by (rule length_takeWhile_le)
  have "take i s = take i (takeWhile P s)"
    using i(2) by (metis append_eq_conv_conj takeWhile_dropWhile_id take_append
        diff_is_0_eq take_0 append_Nil2)
  then have "\<forall>c \<in> set (take i s). P c"
    by (metis in_set_takeD set_takeWhileD)
  moreover have "length (take i s) = i" using i(2) le by simp
  moreover have "s = take i s @ rest" using i(3) by simp
  ultimately have "a \<le> length (take i s) \<and> (\<forall>c \<in> set (take i s). P c) \<and> s = take i s @ rest"
    using i(1) by simp
  then show "rest \<in> {rest. \<exists>m. a \<le> length m \<and> (\<forall>c \<in> set m. P c) \<and> s = m @ rest}"
    by (intro CollectI exI[of _ "take i s"])
next
  fix rest
  assume "rest \<in> {rest. \<exists>m. a \<le> length m \<and> (\<forall>c \<in> set m. P c) \<and> s = m @ rest}"
  then obtain m where m: "a \<le> length m" "\<forall>c \<in> set m. P c" "s = m @ rest" by blast
  have "takeWhile P s = m @ takeWhile P rest" using m(2,3) by (simp add: takeWhile_append2)
  then have "length m \<le> length (takeWhile P s)" by simp
  moreover have "rest = drop (length m) s" using m(3) by simp
  ultimately show "rest \<in> (\<lambda>i. drop i s) ` {a .. length (takeWhile P s)}"
    using m(1) by auto
qed

lemma set_ends: "set (ends r ic s) = {rest. \<exists>m. matches r ic m \<and> s = m @ rest}"
proof (induction r arbitrary: s)
  case (Str w)
  show ?case
  proof (intro set_eqI iffI)
    fix rest assume "rest \<in> set (ends (Str w) ic s)"
    then have c: "length w \<le> length s" "str_eq ic (take (length w) s) w" "rest = drop (length w) s"
      by (auto split: if_splits)
    then have "matches (Str w) ic (take (length w) s) \<and> s = take (length w) s @ rest" by simp
    then show "rest \<in> {rest. \<exists>m. matches (Str w) ic m \<and> s = m @ rest}" by blast
  next
    fix rest assume "rest \<in> {rest. \<exists>m. matches (Str w) ic m \<and> s = m @ rest}"
    then obtain m where "length m = length w" "str_eq ic m w" "s = m @ rest" by auto
    then show "rest \<in> set (ends (Str w) ic s)" by auto
  qed
next
  case (Cls k)
  show ?case by (cases s) auto
next
  case (Seq a b)
  have "set (ends (Seq a b) ic s) = (\<Union>mid \<in> set (ends a ic s). set (ends b ic mid))" by simp
  also have "\<dots> = {rest. \<exists>x y. matches a ic x \<and> matches b ic y \<and> s = (x @ y) @ rest}"
    unfolding Seq.IH by auto
  also have "\<dots> = {rest. \<exists>m. matches (Seq a b) ic m \<and> s = m @ rest}"
    by (simp only: matches.simps) blast
  finally show ?case .
next
  case (Opt a)
  show ?case using Opt.IH[of s] by auto
next
  case (Plus k)
  have "set (ends (Plus k) ic s)
      = (\<lambda>i. drop i s) ` set [1 ..< Suc (length (takeWhile (cls_match k) s))]"
    by (simp only: ends.simps set_map set_rev)
  also have "\<dots> = (\<lambda>i. drop i s) ` {1 .. length (takeWhile (cls_match k) s)}"
    by (simp only: set_upt atLeastLessThanSuc_atLeastAtMost)
  also have "\<dots> = {rest. \<exists>m. 1 \<le> length m \<and> (\<forall>c \<in> set m. cls_match k c) \<and> s = m @ rest}"
    by (rule run_prefixes)
  also have "\<dots> = {rest. \<exists>m. matches (Plus k) ic m \<and> s = m @ rest}"
    by (auto simp: Suc_le_eq)
  finally show ?case .
next
  case (Star k)
  have "set (ends (Star k) ic s)
      = (\<lambda>i. drop i s) ` set [0 ..< Suc (length (takeWhile (cls_match k) s))]"
    by (simp only: ends.simps set_map set_rev)
  also have "\<dots> = (\<lambda>i. drop i s) ` {0 .. length (takeWhile (cls_match k) s)}"
    by (simp only: set_upt atLeastLessThanSuc_atLeastAtMost)
  also have "\<dots> = {rest. \<exists>m. 0 \<le> length m \<and> (\<forall>c \<in> set m. cls_match k c) \<and> s = m @ rest}"
    by (rule run_prefixes)
  also have "\<dots> = {rest. \<exists>m. matches (Star k) ic m \<and> s = m @ rest}" by auto
  finally show ?case .
next
  case (Rep n k)
  show ?case
  proof (intro set_eqI iffI)
    fix rest assume "rest \<in> set (ends (Rep n k) ic s)"
    then have c: "n \<le> length s" "\<forall>c \<in> set (take n s). cls_match k c" "rest = drop n s"
      by (auto split: if_splits)
    then have "matches (Rep n k) ic (take n s) \<and> s = take n s @ rest" by simp
    then show "rest \<in> {rest. \<exists>m. matches (Rep n k) ic m \<and> s = m @ rest}" by blast
  next
    fix rest assume "rest \<in> {rest. \<exists>m. matches (Rep n k) ic m \<and> s = m @ rest}"
    then obtain m where "length m = n" "\<forall>c \<in> set m. cls_match k c" "s = m @ rest" by auto
    then show "rest \<in> set (ends (Rep n k) ic s)" by auto
  qed
next
  case (Group a)
  show ?case using Group.IH[of s] by simp
qed

lemma ends_Nil_iff: "ends r ic s = [] \<longleftrightarrow> \<not> (\<exists>m rest. matches r ic m \<and> s = m @ rest)"
proof -
  have "ends r ic s = [] \<longleftrightarrow> set (ends r ic s) = {}" by simp
  also have "\<dots> \<longleftrightarrow> \<not> (\<exists>m rest. matches r ic m \<and> s = m @ rest)"
    unfolding set_ends by blast
  finally show ?thesis .
qed

lemma occurs_Cons:
  "occurs r ic (c # cs) \<longleftrightarrow> (\<exists>m rest. matches r ic m \<and> c # cs = m @ rest) \<or> occurs r ic cs"
proof
  assume "occurs r ic (c # cs)"
  then obtain a m b where e: "c # cs = a @ m @ b" "matches r ic m" by (auto simp: occurs_def)
  show "(\<exists>m rest. matches r ic m \<and> c # cs = m @ rest) \<or> occurs r ic cs"
  proof (cases a)
    case Nil with e show ?thesis by auto
  next
    case (Cons x a') with e have "cs = a' @ m @ b" by simp
    with e(2) show ?thesis by (auto simp: occurs_def)
  qed
next
  assume "(\<exists>m rest. matches r ic m \<and> c # cs = m @ rest) \<or> occurs r ic cs"
  then show "occurs r ic (c # cs)"
  proof
    assume "\<exists>m rest. matches r ic m \<and> c # cs = m @ rest"
    then obtain m rest where "matches r ic m" "c # cs = [] @ m @ rest" by auto
    then show ?thesis unfolding occurs_def by blast
  next
    assume "occurs r ic cs"
    then obtain a m b where "cs = a @ m @ b" "matches r ic m" by (auto simp: occurs_def)
    then have "c # cs = (c # a) @ m @ b" "matches r ic m" by auto
    then show ?thesis unfolding occurs_def by blast
  qed
qed

lemma occurs_Nil: "occurs r ic [] \<longleftrightarrow> (\<exists>m rest. matches r ic m \<and> [] = m @ rest)"
  by (auto simp: occurs_def)

lemma re_search_None_iff: "re_search r ic s = None \<longleftrightarrow> \<not> occurs r ic s"
proof (induction s)
  case Nil
  show ?case using ends_Nil_iff[of r ic "[]"] occurs_Nil[of r ic]
    by (cases "ends r ic []") (auto simp: re_search.simps[of r ic "[]"])
next
  case (Cons c cs)
  show ?case
  proof (cases "ends r ic (c # cs)")
    case Nil
    then have "\<not> (\<exists>m rest. matches r ic m \<and> c # cs = m @ rest)" by (simp add: ends_Nil_iff)
    with Nil Cons show ?thesis by (simp add: occurs_Cons re_search.simps[of r ic "c # cs"])
  next
    case (Cons rest others)
    then have "ends r ic (c # cs) \<noteq> []" by simp
    then have "\<exists>m rest. matches r ic m \<and> c # cs = m @ rest" by (simp add: ends_Nil_iff)
    with Cons show ?thesis by (simp add: occurs_Cons re_search.simps[of r ic "c # cs"])
  qed
qed

text \<open>The match reported is a match, and no match starts further left.\<close>

lemma re_search_Some:
  "re_search r ic s = Some m \<Longrightarrow>
     matches r ic m \<and>
     (\<exists>a b. s = a @ m @ b \<and> (\<forall>a' m' b'. s = a' @ m' @ b' \<and> matches r ic m' \<longrightarrow> length a \<le> length a'))"
proof (induction s)
  case Nil
  then obtain rest others where e: "ends r ic [] = rest # others" "m = []"
    by (cases "ends r ic []") (auto simp: re_search.simps[of r ic "[]"])
  then have "rest \<in> set (ends r ic [])" by simp
  then have "matches r ic []" unfolding set_ends by auto
  with e show ?case by auto
next
  case (Cons c cs)
  show ?case
  proof (cases "ends r ic (c # cs)")
    case (Cons rest others)
    then have "rest \<in> set (ends r ic (c # cs))" by simp
    then obtain m0 where m0: "matches r ic m0" "c # cs = m0 @ rest" unfolding set_ends by blast
    from Cons Cons.prems have "m = take (length (c # cs) - length rest) (c # cs)"
      by (simp add: re_search.simps[of r ic "c # cs"])
    with m0(2) have "m = m0" by simp
    with m0 have "matches r ic m" "c # cs = [] @ m @ rest" by auto
    then show ?thesis by fastforce
  next
    case Nil
    with Cons.prems have "re_search r ic cs = Some m"
      by (simp add: re_search.simps[of r ic "c # cs"])
    from Cons.IH[OF this] obtain a b where
      ab: "matches r ic m" "cs = a @ m @ b"
      "\<forall>a' m' b'. cs = a' @ m' @ b' \<and> matches r ic m' \<longrightarrow> length a \<le> length a'"
      by blast
    have no: "\<not> (\<exists>m rest. matches r ic m \<and> c # cs = m @ rest)" using Nil by (simp add: ends_Nil_iff)
    have "\<forall>a' m' b'. c # cs = a' @ m' @ b' \<and> matches r ic m' \<longrightarrow> length (c # a) \<le> length a'"
    proof (intro allI impI)
      fix a' m' b' assume h: "c # cs = a' @ m' @ b' \<and> matches r ic m'"
      show "length (c # a) \<le> length a'"
      proof (cases a')
        case Nil with h no show ?thesis by auto
      next
        case (Cons x a'')
        with h have "cs = a'' @ m' @ b' \<and> matches r ic m'" by simp
        with ab(3) have "length a \<le> length a''" by blast
        with Cons show ?thesis by simp
      qed
    qed
    moreover have "c # cs = (c # a) @ m @ b" using ab(2) by simp
    ultimately show ?thesis using ab(1) by blast
  qed
qed


lemma first_match_None_iff:
  "first_match ps text = None \<longleftrightarrow> (\<forall>p \<in> set ps. \<not> occurs p True text)"
  by (induction ps) (auto simp: re_search_None_iff[symmetric] split: option.splits)

lemma first_match_Some:
  "first_match ps text = Some m \<Longrightarrow>
     \<exists>i<length ps. re_search (ps ! i) True text = Some m \<and> (\<forall>j<i. \<not> occurs (ps ! j) True text)"
proof (induction ps)
  case Nil then show ?case by simp
next
  case (Cons p ps)
  show ?case
  proof (cases "re_search p True text")
    case (Some m')
    with Cons.prems have "re_search ((p # ps) ! 0) True text = Some m" by simp
    then show ?thesis by fastforce
  next
    case None
    with Cons.prems have "first_match ps text = Some m" by simp
    from Cons.IH[OF this] obtain i where i: "i < length ps" "re_search (ps ! i) True text = Some m"
      "\<forall>j<i. \<not> occurs (ps ! j) True text" by blast
    have n: "\<not> occurs p True text" using None by (simp add: re_search_None_iff)
    have "\<forall>j<Suc i. \<not> occurs ((p # ps) ! j) True text"
    proof (intro allI impI)
      fix j assume "j < Suc i"
      then show "\<not> occurs ((p # ps) ! j) True text" using n i(3) by (cases j) auto
    qed
    moreover have "Suc i < length (p # ps)" "re_search ((p # ps) ! Suc i) True text = Some m"
      using i by auto
    ultimately show ?thesis by blast
  qed
qed

lemma lower_length: "lower a = lower b \<Longrightarrow> length a = length b"
  unfolding lower_def by (metis length_map)

lemma matches_Str_ic: "matches (Str w) True m \<longleftrightarrow> lower m = lower w"
  by (auto simp: str_eq_def dest: lower_length)

lemma matches_spaces: "matches (Plus Space) ic m \<longleftrightarrow> spaces m"
  by (simp add: spaces_def)

lemma matches_year: "matches (Group (Rep 4 Digit)) ic m \<longleftrightarrow> year m"
  by (simp add: year_def)

lemma matches_opt_in:
  "matches (Opt (Group (Seq (Str ''in'') (Plus Space)))) True m
     \<longleftrightarrow> m = [] \<or> (\<exists>i sp2. lower i = ''in'' \<and> spaces sp2 \<and> m = i @ sp2)"
proof -
  have l: "lower ''in'' = ''in''" by code_simp
  show ?thesis
    by (simp only: matches.simps(3,4,8) matches_Str_ic matches_spaces l) blast
qed


lemma matches_SeqI: "matches a ic x \<Longrightarrow> matches b ic y \<Longrightarrow> matches (Seq a b) ic (x @ y)"
  by (simp only: matches.simps(3)) blast

lemma matches_SeqE:
  assumes "matches (Seq a b) ic m"
  obtains x y where "m = x @ y" "matches a ic x" "matches b ic y"
  using assms by (simp only: matches.simps(3)) blast

lemma phrase_with_in:
  "matches (Seq (Str word) (Seq (Plus Space)
        (Seq (Opt (Group (Seq (Str ''in'') (Plus Space)))) (Group (Rep 4 Digit))))) True m
   \<longleftrightarrow> founding_phrase word True m"
proof
  assume a: "matches (Seq (Str word) (Seq (Plus Space)
        (Seq (Opt (Group (Seq (Str ''in'') (Plus Space)))) (Group (Rep 4 Digit))))) True m"
  from a obtain w r1 where 1: "m = w @ r1" "matches (Str word) True w"
    "matches (Seq (Plus Space)
        (Seq (Opt (Group (Seq (Str ''in'') (Plus Space)))) (Group (Rep 4 Digit)))) True r1"
    by (rule matches_SeqE)
  from 1(3) obtain sp r2 where 2: "r1 = sp @ r2" "matches (Plus Space) True sp"
    "matches (Seq (Opt (Group (Seq (Str ''in'') (Plus Space)))) (Group (Rep 4 Digit))) True r2"
    by (rule matches_SeqE)
  from 2(3) obtain o' y where 3: "r2 = o' @ y"
    "matches (Opt (Group (Seq (Str ''in'') (Plus Space)))) True o'"
    "matches (Group (Rep 4 Digit)) True y"
    by (rule matches_SeqE)
  have w: "lower w = lower word" using 1(2) by (simp only: matches_Str_ic)
  have sp: "spaces sp" using 2(2) by (simp only: matches_spaces)
  have y: "year y" using 3(3) by (simp only: matches_year)
  have m: "m = w @ sp @ o' @ y" using 1(1) 2(1) 3(1) by simp
  from 3(2) consider "o' = []" | i sp2 where "lower i = ''in''" "spaces sp2" "o' = i @ sp2"
    unfolding matches_opt_in by blast
  then show "founding_phrase word True m"
  proof cases
    case 1
    with m have "m = w @ sp @ y" by simp
    with w sp y show ?thesis unfolding founding_phrase_def by blast
  next
    case 2
    with m have "m = w @ sp @ i @ sp2 @ y" by simp
    with w sp y 2(1,2) show ?thesis unfolding founding_phrase_def by blast
  qed
next
  assume "founding_phrase word True m"
  then obtain w sp y where w: "lower w = lower word" and sp: "spaces sp" and y: "year y"
    and d: "m = w @ sp @ y \<or> (\<exists>i sp2. lower i = ''in'' \<and> spaces sp2 \<and> m = w @ sp @ i @ sp2 @ y)"
    unfolding founding_phrase_def by blast
  from d obtain o' where o': "matches (Opt (Group (Seq (Str ''in'') (Plus Space)))) True o'"
    and m: "m = w @ sp @ o' @ y"
  proof
    assume "m = w @ sp @ y"
    then have "m = w @ sp @ [] @ y" by simp
    moreover have "matches (Opt (Group (Seq (Str ''in'') (Plus Space)))) True []"
      by (simp only: matches.simps(4) simp_thms)
    ultimately show ?thesis using that by blast
  next
    assume "\<exists>i sp2. lower i = ''in'' \<and> spaces sp2 \<and> m = w @ sp @ i @ sp2 @ y"
    then obtain i sp2 where i: "lower i = ''in''" "spaces sp2" "m = w @ sp @ i @ sp2 @ y" by blast
    then have "matches (Opt (Group (Seq (Str ''in'') (Plus Space)))) True (i @ sp2)"
      unfolding matches_opt_in by blast
    moreover have "m = w @ sp @ (i @ sp2) @ y" using i(3) by simp
    ultimately show ?thesis using that by blast
  qed
  have "matches (Str word) True w" using w by (simp only: matches_Str_ic)
  moreover have "matches (Plus Space) True sp" using sp by (simp only: matches_spaces)
  moreover have "matches (Group (Rep 4 Digit)) True y" using y by (simp only: matches_year)
  ultimately have "matches (Seq (Str word) (Seq (Plus Space)
        (Seq (Opt (Group (Seq (Str ''in'') (Plus Space)))) (Group (Rep 4 Digit))))) True
        (w @ sp @ o' @ y)"
    using o' by (intro matches_SeqI)
  with m show "matches (Seq (Str word) (Seq (Plus Space)
        (Seq (Opt (Group (Seq (Str ''in'') (Plus Space)))) (Group (Rep 4 Digit))))) True m"
    by simp
qed

lemma phrase_without_in:
  "matches (Seq (Str word) (Seq (Plus Space) (Group (Rep 4 Digit)))) True m
   \<longleftrightarrow> founding_phrase word False m"
proof
  assume a: "matches (Seq (Str word) (Seq (Plus Space) (Group (Rep 4 Digit)))) True m"
  from a obtain w r1 where 1: "m = w @ r1" "matches (Str word) True w"
    "matches (Seq (Plus Space) (Group (Rep 4 Digit))) True r1"
    by (rule matches_SeqE)
  from 1(3) obtain sp y where 2: "r1 = sp @ y" "matches (Plus Space) True sp"
    "matches (Group (Rep 4 Digit)) True y"
    by (rule matches_SeqE)
  have "lower w = lower word" using 1(2) by (simp only: matches_Str_ic)
  moreover have "spaces sp" using 2(2) by (simp only: matches_spaces)
  moreover have "year y" using 2(3) by (simp only: matches_year)
  moreover have "m = w @ sp @ y" using 1(1) 2(1) by simp
  ultimately show "founding_phrase word False m" unfolding founding_phrase_def by blast
next
  assume "founding_phrase word False m"
  then obtain w sp y where w: "lower w = lower word" and sp: "spaces sp" and y: "year y"
    and m: "m = w @ sp @ y"
    unfolding founding_phrase_def by blast
  have "matches (Str word) True w" using w by (simp only: matches_Str_ic)
  moreover have "matches (Plus Space) True sp" using sp by (simp only: matches_spaces)
  moreover have "matches (Group (Rep 4 Digit)) True y" using y by (simp only: matches_year)
  ultimately have "matches (Seq (Str word) (Seq (Plus Space) (Group (Rep 4 Digit)))) True (w @ sp @ y)"
    by (intro matches_SeqI)
  with m show "matches (Seq (Str word) (Seq (Plus Space) (Group (Rep 4 Digit)))) True m" by simp
qed

lemma founded_patterns_phrases:
  "matches (founded_patterns ! 0) True m = founding_phrase ''Founded'' True m"
  "matches (founded_patterns ! 1) True m = founding_phrase ''Established'' True m"
  "matches (founded_patterns ! 2) True m = founding_phrase ''Since'' False m"
  unfolding founded_patterns_def
  by (simp_all only: nth_Cons_0 nth_Cons_Suc One_nat_def numeral_2_eq_2 phrase_with_in phrase_without_in)

text \<open>
  C9. \<open>extract_founded\<close> returns null exactly when none of the three patterns
  (case-insensitive) has a match anywhere in the text. Otherwise it returns a text that
  matches one of them, at the leftmost place that pattern matches, and no pattern earlier
  in the list has a match anywhere in the text. The three patterns denote, in this order,
  the phrases "Founded [in] YYYY", "Established [in] YYYY" and "Since YYYY".
  \<open>"Founded in 1998"\<close> yields \<open>"Founded in 1998"\<close>; a text with no founding phrase
  yields null.
\<close>

theorem extract_founded_first_pattern:
  "(extract_founded text = None \<longleftrightarrow> (\<forall>p \<in> set founded_patterns. \<not> occurs p True text))
   \<and> (\<forall>m. extract_founded text = Some m \<longrightarrow>
         (\<exists>i<length founded_patterns.
            matches (founded_patterns ! i) True m
            \<and> (\<forall>j<i. \<not> occurs (founded_patterns ! j) True text)
            \<and> (\<exists>a b. text = a @ m @ b
                  \<and> (\<forall>a' m' b'. text = a' @ m' @ b' \<and> matches (founded_patterns ! i) True m'
                        \<longrightarrow> length a \<le> length a'))))
   \<and> (\<forall>m. matches (founded_patterns ! 0) True m = founding_phrase ''Founded'' True m)
   \<and> (\<forall>m. matches (founded_patterns ! 1) True m = founding_phrase ''Established'' True m)
   \<and> (\<forall>m. matches (founded_patterns ! 2) True m = founding_phrase ''Since'' False m)
   \<and> length founded_patterns = 3
   \<and> extract_founded ''Founded in 1998'' = Some ''Founded in 1998''
   \<and> extract_founded ''We make widgets.'' = None"
proof (intro conjI allI impI)
  show "extract_founded text = None \<longleftrightarrow> (\<forall>p \<in> set founded_patterns. \<not> occurs p True text)"
    unfolding extract_founded_def by (rule first_match_None_iff)
next
  fix m assume "extract_founded text = Some m"
  then have "first_match founded_patterns text = Some m" by (simp add: extract_founded_def)
  from first_match_Some[OF this] obtain i where i: "i < length founded_patterns"
    "re_search (founded_patterns ! i) True text = Some m"
    "\<forall>j<i. \<not> occurs (founded_patterns ! j) True text" by blast
  from re_search_Some[OF i(2)] i(1,3)
  show "\<exists>i<length founded_patterns.
            matches (founded_patterns ! i) True m
            \<and> (\<forall>j<i. \<not> occurs (founded_patterns ! j) True text)
            \<and> (\<exists>a b. text = a @ m @ b
                  \<and> (\<forall>a' m' b'. text = a' @ m' @ b' \<and> matches (founded_patterns ! i) True m'
                        \<longrightarrow> length a \<le> length a'))"
    by blast
next
  fix m
  show "matches (founded_patterns ! 0) True m = founding_phrase ''Founded'' True m"
    by (rule founded_patterns_phrases)
  show "matches (founded_patterns ! 1) True m = founding_phrase ''Established'' True m"
    by (rule founded_patterns_phrases)
  show "matches (founded_patterns ! 2) True m = founding_phrase ''Since'' False m"
    by (rule founded_patterns_phrases)
next
  show "length founded_patterns = 3" by (simp add: founded_patterns_def)
  show "extract_founded ''Founded in 1998'' = Some ''Founded in 1998''" by code_simp
  show "extract_founded ''We make widgets.'' = None" by code_simp
qed

theorem extract_founded_first_pattern_witness:
  "extract_founded ''Since 1990 we grew. Acme was founded  IN 1998.'' = Some ''founded  IN 1998''
   \<and> (\<exists>i<length founded_patterns. matches (founded_patterns ! i) True ''founded  IN 1998'')
   \<and> extract_founded ''Our story'' = None
   \<and> \<not> occurs (founded_patterns ! 0) True ''Our story''"
proof -
  have e: "extract_founded ''Since 1990 we grew. Acme was founded  IN 1998.'' = Some ''founded  IN 1998''"
    by code_simp
  from extract_founded_first_pattern[of "''Since 1990 we grew. Acme was founded  IN 1998.''"] e
  have 1: "\<exists>i<length founded_patterns. matches (founded_patterns ! i) True ''founded  IN 1998''"
    by blast
  have n: "extract_founded ''Our story'' = None" by code_simp
  from extract_founded_first_pattern[of "''Our story''"] n
  have "\<forall>p \<in> set founded_patterns. \<not> occurs p True ''Our story''" by blast
  moreover have "founded_patterns ! 0 \<in> set founded_patterns" by (simp add: founded_patterns_def)
  ultimately have 2: "\<not> occurs (founded_patterns ! 0) True ''Our story''" by blast
  from e 1 n 2 show ?thesis by blast
qed


subsection \<open>The upload endpoint\<close>

text \<open>
  C5. While the job is running, \<open>upload\<close> answers 409 and leaves the job as it is
  (results, events and status included) and starts nothing. When the job is not running,
  the upload validates (a file with an accepted extension whose table can be read and
  has the columns \<open>company_name\<close> and \<open>website\<close>) and the file has been stored under
  \<open>uploads/\<close>, the identifier, \<open>_\<close> and its name, it sets every field of the job to
  its initial value with results and events empty, the identifier to the first eight
  characters of a fresh uuid, the status to running, and starts the run on the stored
  file. When storing the file raises, the exception leaves the handler. Every reply other
  than the acceptance leaves the job unchanged and starts nothing.
\<close>

theorem upload_conflict_and_reset:
  "(status j = Running \<longrightarrow> upload j file uuid4 save = (Rejected 409 Already_running, j, None))
   \<and> (status j \<noteq> Running \<and> file = Some f
        \<and> (suffix ''.xlsx'' (filename f) \<or> suffix ''.xls'' (filename f) \<or> suffix ''.csv'' (filename f))
        \<and> save (UPLOAD_FOLDER @ ''/'' @ take 8 uuid4 @ ''_'' @ filename f)
        \<and> columns f = Returns cols \<and> {''company_name'', ''website''} \<subseteq> set cols
      \<longrightarrow> upload j file uuid4 save =
            (Accepted (take 8 uuid4),
             \<lparr>id_job = Some (take 8 uuid4), status = Running, total_job = 0, current = 0,
              current_company = [], current_step = [], results = [], events = [],
              error_job = None\<rparr>,
             Some (UPLOAD_FOLDER @ ''/'' @ take 8 uuid4 @ ''_'' @ filename f)))
   \<and> (status j \<noteq> Running \<and> file = Some f
        \<and> (suffix ''.xlsx'' (filename f) \<or> suffix ''.xls'' (filename f) \<or> suffix ''.csv'' (filename f))
        \<and> \<not> save (UPLOAD_FOLDER @ ''/'' @ take 8 uuid4 @ ''_'' @ filename f)
      \<longrightarrow> upload j file uuid4 save = (Unhandled, j, None))
   \<and> ((\<forall>jid. fst (upload j file uuid4 save) \<noteq> Accepted jid)
        \<longrightarrow> fst (snd (upload j file uuid4 save)) = j \<and> snd (snd (upload j file uuid4 save)) = None)"
proof (intro conjI impI)
  assume "status j = Running"
  then show "upload j file uuid4 save = (Rejected 409 Already_running, j, None)"
    by (simp add: upload_def)
next
  assume a: "status j \<noteq> Running \<and> file = Some f
        \<and> (suffix ''.xlsx'' (filename f) \<or> suffix ''.xls'' (filename f) \<or> suffix ''.csv'' (filename f))
        \<and> save (UPLOAD_FOLDER @ ''/'' @ take 8 uuid4 @ ''_'' @ filename f)
        \<and> columns f = Returns cols \<and> {''company_name'', ''website''} \<subseteq> set cols"
  then have "upload j file uuid4 save =
            (Accepted (take 8 uuid4),
             j\<lparr>id_job := Some (take 8 uuid4), status := Running, total_job := 0,
               current := 0, current_company := [], current_step := [],
               results := [], events := [], error_job := None\<rparr>,
             Some (UPLOAD_FOLDER @ ''/'' @ take 8 uuid4 @ ''_'' @ filename f))"
    by (simp add: upload_def Let_def)
  then show "upload j file uuid4 save =
            (Accepted (take 8 uuid4),
             \<lparr>id_job = Some (take 8 uuid4), status = Running, total_job = 0, current = 0,
              current_company = [], current_step = [], results = [], events = [],
              error_job = None\<rparr>,
             Some (UPLOAD_FOLDER @ ''/'' @ take 8 uuid4 @ ''_'' @ filename f))"
    by simp
next
  assume "status j \<noteq> Running \<and> file = Some f
        \<and> (suffix ''.xlsx'' (filename f) \<or> suffix ''.xls'' (filename f) \<or> suffix ''.csv'' (filename f))
        \<and> \<not> save (UPLOAD_FOLDER @ ''/'' @ take 8 uuid4 @ ''_'' @ filename f)"
  then show "upload j file uuid4 save = (Unhandled, j, None)"
    by (simp add: upload_def Let_def)
next
  assume "\<forall>jid. fst (upload j file uuid4 save) \<noteq> Accepted jid"
  then show "fst (snd (upload j file uuid4 save)) = j"
    by (auto simp: upload_def Let_def split: if_splits option.splits outcome.splits)
next
  assume "\<forall>jid. fst (upload j file uuid4 save) \<noteq> Accepted jid"
  then show "snd (snd (upload j file uuid4 save)) = None"
    by (auto simp: upload_def Let_def split: if_splits option.splits outcome.splits)
qed

theorem upload_conflict_and_reset_witness:
  "upload \<lparr>id_job = Some ''1a2b3c4d'', status = Running, total_job = 2, current = 1,
            current_company = ''Acme'', current_step = [],
            results = [initial_result ''Acme'' ''https://acme.test''],
            events = [Start 2], error_job = None\<rparr>
      (Some \<lparr>filename = ''list.xlsx'', columns = Returns [''company_name'', ''website'']\<rparr>)
      ''9f8e7d6c-0000-4000-8000-000000000000'' example_uploads_folder
     = (Rejected 409 Already_running,
        \<lparr>id_job = Some ''1a2b3c4d'', status = Running, total_job = 2, current = 1,
         current_company = ''Acme'', current_step = [],
         results = [initial_result ''Acme'' ''https://acme.test''],
         events = [Start 2], error_job = None\<rparr>, None)
   \<and> upload \<lparr>id_job = Some ''1a2b3c4d'', status = Done, total_job = 2, current = 2,
            current_company = ''Acme'', current_step = [],
            results = [initial_result ''Acme'' ''https://acme.test''],
            events = [Start 2], error_job = None\<rparr>
      (Some \<lparr>filename = ''list.xlsx'', columns = Returns [''company_name'', ''website'']\<rparr>)
      ''9f8e7d6c-0000-4000-8000-000000000000'' example_uploads_folder
     = (Accepted ''9f8e7d6c'',
        \<lparr>id_job = Some ''9f8e7d6c'', status = Running, total_job = 0, current = 0,
         current_company = [], current_step = [], results = [], events = [],
         error_job = None\<rparr>,
        Some ''uploads/9f8e7d6c_list.xlsx'')
   \<and> example_uploads_folder ''uploads/9f8e7d6c_list.xlsx''"
proof -
  let ?f = "\<lparr>filename = ''list.xlsx'', columns = Returns [''company_name'', ''website'']\<rparr>"
  let ?u = "''9f8e7d6c-0000-4000-8000-000000000000''"
  let ?j1 = "\<lparr>id_job = Some ''1a2b3c4d'', status = Running, total_job = 2, current = 1,
            current_company = ''Acme'', current_step = [],
            results = [initial_result ''Acme'' ''https://acme.test''],
            events = [Start 2], error_job = None\<rparr>"
  let ?j2 = "\<lparr>id_job = Some ''1a2b3c4d'', status = Done, total_job = 2, current = 2,
            current_company = ''Acme'', current_step = [],
            results = [initial_result ''Acme'' ''https://acme.test''],
            events = [Start 2], error_job = None\<rparr>"
  have r: "status ?j1 = Running" by simp
  have sv: "example_uploads_folder ''uploads/9f8e7d6c_list.xlsx''" by code_simp
  have v: "status ?j2 \<noteq> Running \<and> Some ?f = Some ?f
        \<and> (suffix ''.xlsx'' (filename ?f) \<or> suffix ''.xls'' (filename ?f) \<or> suffix ''.csv'' (filename ?f))
        \<and> example_uploads_folder (UPLOAD_FOLDER @ ''/'' @ take 8 ?u @ ''_'' @ filename ?f)
        \<and> columns ?f = Returns [''company_name'', ''website'']
        \<and> {''company_name'', ''website''} \<subseteq> set [''company_name'', ''website'']"
    using sv by (simp add: suffix_def UPLOAD_FOLDER_def)
  note c1 = upload_conflict_and_reset[of ?j1 "Some ?f" ?u example_uploads_folder,
      THEN conjunct1]
  note c2 = upload_conflict_and_reset[of ?j2 "Some ?f" ?u example_uploads_folder ?f
      "[''company_name'', ''website'']", THEN conjunct2, THEN conjunct1]
  have 1: "upload ?j1 (Some ?f) ?u example_uploads_folder = (Rejected 409 Already_running, ?j1, None)"
    using c1 r by blast
  have "upload ?j2 (Some ?f) ?u example_uploads_folder =
            (Accepted (take 8 ?u),
             \<lparr>id_job = Some (take 8 ?u), status = Running, total_job = 0, current = 0,
              current_company = [], current_step = [], results = [], events = [],
              error_job = None\<rparr>,
             Some (UPLOAD_FOLDER @ ''/'' @ take 8 ?u @ ''_'' @ filename ?f))"
    using c2 v by blast
  then have 2: "upload ?j2 (Some ?f) ?u example_uploads_folder =
      (Accepted ''9f8e7d6c'',
        \<lparr>id_job = Some ''9f8e7d6c'', status = Running, total_job = 0, current = 0,
         current_company = [], current_step = [], results = [], events = [],
         error_job = None\<rparr>,
        Some ''uploads/9f8e7d6c_list.xlsx'')"
    by (simp add: UPLOAD_FOLDER_def)
  from 1 2 sv show ?thesis by (intro conjI)
qed

text \<open>
  A table with both columns, sent under the name \<open>sub/list.xlsx\<close> while no job is
  running: the path \<open>uploads/9f8e7d6c_sub/list.xlsx\<close> lies in a folder that does not
  exist, \<open>f.save\<close> raises, and the job is neither reset nor started.
\<close>

theorem upload_valid_table_not_stored:
  "status \<lparr>id_job = Some ''1a2b3c4d'', status = Done, total_job = 2, current = 2,
            current_company = ''Acme'', current_step = [],
            results = [initial_result ''Acme'' ''https://acme.test''],
            events = [Start 2], error_job = None\<rparr> \<noteq> Running
   \<and> suffix ''.xlsx'' ''sub/list.xlsx''
   \<and> {''company_name'', ''website''} \<subseteq> set [''company_name'', ''website'']
   \<and> upload \<lparr>id_job = Some ''1a2b3c4d'', status = Done, total_job = 2, current = 2,
            current_company = ''Acme'', current_step = [],
            results = [initial_result ''Acme'' ''https://acme.test''],
            events = [Start 2], error_job = None\<rparr>
      (Some \<lparr>filename = ''sub/list.xlsx'', columns = Returns [''company_name'', ''website'']\<rparr>)
      ''9f8e7d6c-0000-4000-8000-000000000000'' example_uploads_folder
     = (Unhandled,
        \<lparr>id_job = Some ''1a2b3c4d'', status = Done, total_job = 2, current = 2,
         current_company = ''Acme'', current_step = [],
         results = [initial_result ''Acme'' ''https://acme.test''],
         events = [Start 2], error_job = None\<rparr>, None)"
proof -
  have sv: "\<not> example_uploads_folder ''uploads/9f8e7d6c_sub/list.xlsx''" by code_simp
  have sf: "suffix ''.xlsx'' ''sub/list.xlsx''" by (simp add: suffix_def)
  show ?thesis using sv sf by (simp add: upload_def Let_def UPLOAD_FOLDER_def)
qed

subsection \<open>Enrichment\<close>


















subsection \<open>A company whose homepage fails\<close>

lemma scrape_company_fatal:
  assumes "homepage_fails E website w"
  shows "fst (scrape_company E company_name website w) = initial_result company_name website"
proof -
  obtain ok w1 where np: "new_page (browser E) w = (ok, w1)" by (cases "new_page (browser E) w")
  show ?thesis
  proof (cases ok)
    case False
    with np show ?thesis by (simp add: scrape_company_def)
  next
    case True
    obtain ok2 w2 where g: "goto (browser E) website w1 = (ok2, w2)"
      by (cases "goto (browser E) website w1")
    show ?thesis
    proof (cases ok2)
      case False
      with np True g show ?thesis
        by (simp add: scrape_company_def crawl_company_def)
    next
      case t2: True
      from assms np True g t2
      have "fst (body_text (browser E) (handle_cookies (browser E) COOKIE_KEYWORDS w2)) = Raises"
        by (auto simp: homepage_fails_def)
      then obtain w4 where
        "body_text (browser E) (handle_cookies (browser E) COOKIE_KEYWORDS w2) = (Raises, w4)"
        by (cases "body_text (browser E) (handle_cookies (browser E) COOKIE_KEYWORDS w2)") auto
      with np True g t2 show ?thesis
        by (simp add: scrape_company_def crawl_company_def Let_def)
    qed
  qed
qed

lemma run_companies_step:
  "run_companies E ((company_name, website) # rows) idx n j w
     = run_companies E rows (idx + 1) n
         (j\<lparr>current := idx + 1, current_company := company_name,
            results := results j @ [fst (scrape_company E company_name website w)],
            events := events j @
              [Company_start (idx + 1) n company_name website,
               Company_done (idx + 1) n company_name (fst (scrape_company E company_name website w))]\<rparr>)
         (save_output E (results j @ [fst (scrape_company E company_name website w)])
            (snd (scrape_company E company_name website w)))"
  by (simp add: Let_def push_event_def split: prod.splits)

lemma run_companies_events:
  "\<exists>evs. events (fst (run_companies E rows idx n j w)) = events j @ evs
         \<and> (\<forall>e \<in> set evs. \<forall>c st. e \<noteq> Step c st) \<and> length evs = 2 * length rows"
proof (induction rows arbitrary: idx j w)
  case Nil
  show ?case by simp
next
  case (Cons row rows)
  obtain company_name website where row: "row = (company_name, website)" by (cases row)
  let ?r = "fst (scrape_company E company_name website w)"
  let ?j = "j\<lparr>current := idx + 1, current_company := company_name,
            results := results j @ [?r],
            events := events j @
              [Company_start (idx + 1) n company_name website,
               Company_done (idx + 1) n company_name ?r]\<rparr>"
  let ?w = "save_output E (results j @ [?r]) (snd (scrape_company E company_name website w))"
  from Cons.IH[of "idx + 1" ?j ?w] obtain evs where
    evs: "events (fst (run_companies E rows (idx + 1) n ?j ?w)) = events ?j @ evs"
    "\<forall>e \<in> set evs. \<forall>c st. e \<noteq> Step c st" "length evs = 2 * length rows"
    by blast
  let ?evs = "[Company_start (idx + 1) n company_name website,
               Company_done (idx + 1) n company_name ?r] @ evs"
  have "events (fst (run_companies E (row # rows) idx n j w)) = events j @ ?evs"
    unfolding row run_companies_step using evs(1) by simp
  moreover have "\<forall>e \<in> set ?evs. \<forall>c st. e \<noteq> Step c st" using evs(2) by auto
  moreover have "length ?evs = 2 * length (row # rows)" using evs(3) by simp
  ultimately show ?case by blast
qed

lemma run_companies_results:
  "length (results (fst (run_companies E rows idx n j w))) = length (results j) + length rows"
proof (induction rows arbitrary: idx j w)
  case Nil
  show ?case by simp
next
  case (Cons row rows)
  obtain company_name website where row: "row = (company_name, website)" by (cases row)
  show ?case unfolding row run_companies_step by (simp add: Cons.IH)
qed

lemma initial_result_fields:
  "initial_result company_name website ''Company Name'' = Some (JStr company_name)
   \<and> initial_result company_name website ''Website'' = Some (JStr website)
   \<and> (\<forall>k v. initial_result company_name website k = Some v
          \<and> k \<noteq> ''Company Name'' \<and> k \<noteq> ''Website'' \<longrightarrow> v = JNull)"
  by (auto simp: initial_result_def split: if_splits)


text \<open>
  C4. When opening the page or reading the homepage fails, \<open>scrape_company\<close> returns
  the result it started with: the two identity fields and null everywhere else. The run
  appends that row, pushes \<open>company_start\<close> and \<open>company_done\<close> for the company and
  goes on with the remaining rows. No \<open>step\<close> event is pushed for the failure: the
  run pushes two events per row and none of them is a \<open>step\<close> event, since
  \<open>scrape_company\<close> of app.py prints the error and never touches the event queue.
\<close>

theorem failed_company_pushes_no_step_event:
  "(homepage_fails E website w \<longrightarrow>
      fst (scrape_company E company_name website w) = initial_result company_name website
      \<and> (\<exists>w'. run_companies E ((company_name, website) # rows) idx n j w
            = run_companies E rows (idx + 1) n
                (j\<lparr>current := idx + 1, current_company := company_name,
                   results := results j @ [initial_result company_name website],
                   events := events j @
                     [Company_start (idx + 1) n company_name website,
                      Company_done (idx + 1) n company_name
                        (initial_result company_name website)]\<rparr>) w'))
   \<and> initial_result company_name website ''Company Name'' = Some (JStr company_name)
   \<and> initial_result company_name website ''Website'' = Some (JStr website)
   \<and> (\<forall>k v. initial_result company_name website k = Some v
          \<and> k \<noteq> ''Company Name'' \<and> k \<noteq> ''Website'' \<longrightarrow> v = JNull)
   \<and> (\<exists>evs. events (fst (run_companies E rows idx n j w)) = events j @ evs
          \<and> (\<forall>e \<in> set evs. \<forall>c st. e \<noteq> Step c st) \<and> length evs = 2 * length rows)
   \<and> length (results (fst (run_companies E rows idx n j w))) = length (results j) + length rows"
proof -
  have 1: "homepage_fails E website w \<longrightarrow>
      fst (scrape_company E company_name website w) = initial_result company_name website
      \<and> (\<exists>w'. run_companies E ((company_name, website) # rows) idx n j w
            = run_companies E rows (idx + 1) n
                (j\<lparr>current := idx + 1, current_company := company_name,
                   results := results j @ [initial_result company_name website],
                   events := events j @
                     [Company_start (idx + 1) n company_name website,
                      Company_done (idx + 1) n company_name
                        (initial_result company_name website)]\<rparr>) w')"
  proof (intro impI conjI)
    assume f: "homepage_fails E website w"
    then show r: "fst (scrape_company E company_name website w) = initial_result company_name website"
      by (rule scrape_company_fatal)
    show "\<exists>w'. run_companies E ((company_name, website) # rows) idx n j w
            = run_companies E rows (idx + 1) n
                (j\<lparr>current := idx + 1, current_company := company_name,
                   results := results j @ [initial_result company_name website],
                   events := events j @
                     [Company_start (idx + 1) n company_name website,
                      Company_done (idx + 1) n company_name
                        (initial_result company_name website)]\<rparr>) w'"
      unfolding run_companies_step r by (rule exI) (rule refl)
  qed
  from 1 initial_result_fields[of company_name website]
    run_companies_events[of E rows idx n j w] run_companies_results[of E rows idx n j w]
  show ?thesis by (intro conjI) blast+
qed

theorem failed_company_pushes_no_step_event_witness:
  "homepage_fails (example_env [(''https://beta.test'', ''Beta Corp. Founded in 2001.'')]
                     [(''Acme'', ''https://acme.test''), (''Beta'', ''https://beta.test'')])
      ''https://acme.test'' []
   \<and> fst (scrape_company
            (example_env [(''https://beta.test'', ''Beta Corp. Founded in 2001.'')]
               [(''Acme'', ''https://acme.test''), (''Beta'', ''https://beta.test'')])
            ''Acme'' ''https://acme.test'' [])
       = initial_result ''Acme'' ''https://acme.test''
   \<and> events (fst (run_scraper_thread
            (example_env [(''https://beta.test'', ''Beta Corp. Founded in 2001.'')]
               [(''Acme'', ''https://acme.test''), (''Beta'', ''https://beta.test'')])
            ''uploads/9f8e7d6c_list.xlsx''
            \<lparr>id_job = Some ''9f8e7d6c'', status = Running, total_job = 0, current = 0,
             current_company = [], current_step = [], results = [], events = [],
             error_job = None\<rparr> []))
       = [Start 2,
          Company_start 1 2 ''Acme'' ''https://acme.test'',
          Company_done 1 2 ''Acme'' (initial_result ''Acme'' ''https://acme.test''),
          Company_start 2 2 ''Beta'' ''https://beta.test'',
          Company_done 2 2 ''Beta''
            (fst (scrape_company
               (example_env [(''https://beta.test'', ''Beta Corp. Founded in 2001.'')]
                  [(''Acme'', ''https://acme.test''), (''Beta'', ''https://beta.test'')])
               ''Beta'' ''https://beta.test'' ''https://acme.test'')),
          Done_event 2 ''output.xlsx'']
   \<and> fst (scrape_company
            (example_env [(''https://beta.test'', ''Beta Corp. Founded in 2001.'')]
               [(''Acme'', ''https://acme.test''), (''Beta'', ''https://beta.test'')])
            ''Beta'' ''https://beta.test'' ''https://acme.test'') ''Founded Info''
       = Some (JStr ''Founded in 2001'')"
proof -
  let ?E = "example_env [(''https://beta.test'', ''Beta Corp. Founded in 2001.'')]
               [(''Acme'', ''https://acme.test''), (''Beta'', ''https://beta.test'')]"
  let ?j = "\<lparr>id_job = Some ''9f8e7d6c'', status = Running, total_job = 0, current = 0,
             current_company = [], current_step = [], results = [], events = [],
             error_job = None\<rparr>"
  have f: "homepage_fails ?E ''https://acme.test'' []"
    by (simp add: homepage_fails_def example_env_def example_browser_def)
  note c1 = failed_company_pushes_no_step_event[where E="?E" and website="''https://acme.test''"
      and w="[]" and company_name="''Acme''", THEN conjunct1]
  from c1 f have r: "fst (scrape_company ?E ''Acme'' ''https://acme.test'' [])
       = initial_result ''Acme'' ''https://acme.test''"
    by blast
  have sw: "snd (scrape_company ?E ''Acme'' ''https://acme.test'' []) = ''https://acme.test''"
    by (simp add: scrape_company_def crawl_company_def example_env_def example_browser_def)
  have ops: "read_excel ?E = (\<lambda>f w. (Inr [(''Acme'', ''https://acme.test''), (''Beta'', ''https://beta.test'')], w))"
    "launch ?E = (\<lambda>w. (Inr (), w))" "close_browser ?E = (\<lambda>w. (Inr (), w))"
    "save_output ?E = (\<lambda>rs w. w)"
    by (simp_all add: example_env_def)
  have ev: "events (fst (run_scraper_thread ?E ''uploads/9f8e7d6c_list.xlsx'' ?j []))
       = [Start 2,
          Company_start 1 2 ''Acme'' ''https://acme.test'',
          Company_done 1 2 ''Acme'' (initial_result ''Acme'' ''https://acme.test''),
          Company_start 2 2 ''Beta'' ''https://beta.test'',
          Company_done 2 2 ''Beta''
            (fst (scrape_company ?E ''Beta'' ''https://beta.test'' ''https://acme.test'')),
          Done_event 2 ''output.xlsx'']"
    unfolding run_scraper_thread_def run_scraper_async_def ops
    by (simp add: run_companies_step r sw ops push_event_def OUTPUT_FILE_def Let_def
        del: run_companies.simps(2) split: prod.splits)
  have b: "fst (scrape_company ?E ''Beta'' ''https://beta.test'' ''https://acme.test'') ''Founded Info''
       = Some (JStr ''Founded in 2001'')"
    by code_simp
  from f r ev b show ?thesis by (intro conjI)
qed

end
